theory Spec2Isabelle
  imports Main "HOL-Library.Multiset"
begin

section \<open>Errors and values shared by the harvesting code\<close>

text \<open>
  Every exception the modelled Python code can raise is a value of \<open>error\<close>; a call that
  may raise returns \<open>error + 'a\<close> with \<open>Inl\<close> for the exception.
\<close>

datatype error =
    ValueError
  | AttributeError
  | CacheError
  | ParseError
  | KeyError
  | InvalidDateError
  | OverflowError
  | HTTPError
  | ConnectionError
  | UnboundLocalError
  | UnicodeEncodeError
  | CsvError

text \<open>
  A Python \<open>str\<close> is a sequence of Unicode code points, and \<open>bytes\<close> a sequence of
  numbers below 256. The values handed to \<open>uuid(*args)\<close> and kept in the epoch fields
  of an item are arbitrary Python objects, a float being a mantissa and a binary
  exponent.
\<close>

type_synonym pystr = "nat list"

datatype pyval =
    Str pystr
  | NoneVal
  | IntVal int
  | FloatVal int int
  | BytesVal "nat list"

text \<open>
  Applying a function that may raise to the elements of a list from left to right: the
  first exception ends it.
\<close>

fun traverse :: "('a \<Rightarrow> error + 'b) \<Rightarrow> 'a list \<Rightarrow> error + 'b list" where
  "traverse f [] = Inr []"
| "traverse f (x # xs) =
     (case f x of
        Inl e \<Rightarrow> Inl e
      | Inr y \<Rightarrow> (case traverse f xs of Inl e \<Rightarrow> Inl e | Inr ys \<Rightarrow> Inr (y # ys)))"

text \<open>
  Splitting a list into consecutive groups of \<open>k\<close> elements, the last one possibly
  shorter: the reading of ``batches of the bulk size'' and of ``chunks of fixed size''
  that the properties below are stated against.
\<close>

function chunks :: "nat \<Rightarrow> 'a list \<Rightarrow> 'a list list" where
  "chunks k xs = (if k = 0 \<or> xs = [] then [] else take k xs # chunks k (drop k xs))"
  by pat_completeness auto
termination
  by (relation "measure (\<lambda>(k, xs). length xs)") auto

section \<open>Identity generator (perceval/backend.py, uuid)\<close>

text \<open>\<open>check_value(v)\<close>: the first test is \<open>isinstance(v, str)\<close>, the second \<open>not v\<close>.\<close>

fun check_value :: "pyval \<Rightarrow> error + pystr" where
  "check_value (Str s) = (if s = [] then Inl ValueError else Inr s)"
| "check_value v = Inl ValueError"

text \<open>\<open>sep.join(xs)\<close> of Python.\<close>

fun join_str :: "'a list \<Rightarrow> 'a list list \<Rightarrow> 'a list" where
  "join_str sep [] = []"
| "join_str sep [x] = x"
| "join_str sep (x # y # ys) = x @ sep @ join_str sep (y # ys)"

text \<open>
  \<open>s.encode('utf-8')\<close>. A code point from D800 to DFFF (a surrogate) has no UTF-8
  encoding and makes \<open>encode\<close> raise \<open>UnicodeEncodeError\<close>; a number above 10FFFF is
  the code point of no \<open>str\<close>, and the model gives it no encoding either.
\<close>

definition encodable :: "nat \<Rightarrow> bool" where
  "encodable c = (c < 0xD800 \<or> (0xDFFF < c \<and> c \<le> 0x10FFFF))"

definition utf8_bytes :: "nat \<Rightarrow> nat list" where
  "utf8_bytes c =
     (if c < 0x80 then [c]
      else if c < 0x800 then [0xC0 + c div 64, 0x80 + c mod 64]
      else if c < 0x10000 then [0xE0 + c div 4096, 0x80 + (c div 64) mod 64, 0x80 + c mod 64]
      else [0xF0 + c div 262144, 0x80 + (c div 4096) mod 64, 0x80 + (c div 64) mod 64,
            0x80 + c mod 64])"

definition encode_char :: "nat \<Rightarrow> error + nat list" where
  "encode_char c = (if encodable c then Inr (utf8_bytes c) else Inl UnicodeEncodeError)"

definition encode_utf8 :: "pystr \<Rightarrow> error + nat list" where
  "encode_utf8 s =
     (case traverse encode_char s of Inl e \<Rightarrow> Inl e | Inr bss \<Rightarrow> Inr (concat bss))"

text \<open>
  \<open>uuid(*args)\<close>: \<open>map(check_value, args)\<close> is consumed by \<open>join\<close>, so the values are
  checked from left to right and the first failing one raises; the joined string is
  then encoded and hashed. The parameter \<open>sha1_hex\<close> stands for the standard library's
  \<open>hashlib.sha1(b).hexdigest()\<close>, which is not code of the repository.
\<close>

definition uuid :: "(nat list \<Rightarrow> string) \<Rightarrow> pyval list \<Rightarrow> error + string" where
  "uuid sha1_hex args =
     (case traverse check_value args of
        Inl e \<Rightarrow> Inl e
      | Inr ss \<Rightarrow>
          (case encode_utf8 (join_str [58] ss) of
             Inl e \<Rightarrow> Inl e
           | Inr b \<Rightarrow> Inr (sha1_hex b)))"

section \<open>Sync engine (GrimoireELK/grimoire/ocean/elastic.py)\<close>

text \<open>
  A Python \<open>datetime\<close>: a count of seconds and an optional time zone offset
  (\<open>tzinfo\<close>); \<open>d.replace(tzinfo=None)\<close> drops the zone and keeps the fields.
\<close>

record datetime =
  secs :: int
  tzinfo :: "int option"

definition replace_tzinfo_None :: "datetime \<Rightarrow> datetime" where
  "replace_tzinfo_None d = d\<lparr>tzinfo := None\<rparr>"

text \<open>Python truthiness of an optional string and of an optional integer.\<close>

fun truthy_str :: "string option \<Rightarrow> bool" where
  "truthy_str None = False"
| "truthy_str (Some s) = (s \<noteq> [])"

fun truthy_int :: "int option \<Rightarrow> bool" where
  "truthy_int None = False"
| "truthy_int (Some n) = (n \<noteq> 0)"

text \<open>
  An item as the connector hands it to \<open>feed\<close>: the identity, the two epoch fields of
  the metadata wrapper, either of which may be missing or hold any object, and the
  fields \<open>feed\<close> adds.
\<close>

record item =
  i_uuid :: string
  i_origin :: string
  i_updated_on :: "pyval option"
  i_timestamp :: "pyval option"
  i_metadata_updated_on :: "string option"
  i_metadata_timestamp :: "string option"
  i_project :: "string option"

text \<open>A document of the index: its origin and its date fields by name.\<close>

record stored =
  sd_origin :: string
  sd_dates :: "(string \<times> int) list"

text \<open>
  The index store client \<open>self.elastic\<close>: the bulk size, the documents it holds and
  the \<open>bulk_upload_sync\<close> calls it has received, oldest first.
\<close>

record elastic =
  max_items_bulk :: int
  es_docs :: "stored list"
  bulk_calls :: "(item list \<times> string) list"

text \<open>
  Modelled from the spec: \<open>get_last_date\<close> of the index store client, whose class is
  not among the sources. It returns the maximum value of the field among the documents
  matching the filter (by origin), or nothing when there is none.
\<close>

definition origin_dates :: "elastic \<Rightarrow> string \<Rightarrow> string \<times> string \<Rightarrow> int list" where
  "origin_dates es field flt =
     [v. d \<leftarrow> es_docs es,
         if fst flt = ''origin'' then sd_origin d = snd flt else True,
         (f, v) \<leftarrow> sd_dates d, f = field]"

definition get_last_date :: "elastic \<Rightarrow> string \<Rightarrow> string \<times> string \<Rightarrow> datetime option" where
  "get_last_date es field flt =
     (case origin_dates es field flt of
        [] \<Rightarrow> None
      | v # vs \<Rightarrow> Some \<lparr>secs = fold max vs v, tzinfo = Some 0\<rparr>)"

definition get_field_date :: string where
  "get_field_date = ''metadata__updated_on''"

definition get_field_unique_id :: string where
  "get_field_unique_id = ''ocean-unique-id''"

definition get_last_update_from_es :: "elastic \<Rightarrow> string \<times> string \<Rightarrow> datetime option" where
  "get_last_update_from_es es flt = get_last_date es get_field_date flt"

text \<open>
  The connector as \<open>feed\<close> sees it: its origin, whether the signature of its \<open>fetch\<close>
  has a parameter \<open>from_date\<close>, and what each way of driving it yields: the items, and
  the exception that ended the sequence if one did.
\<close>

datatype fetch_call =
    FetchFromCache
  | FetchFromDate datetime
  | FetchOffset int
  | FetchAll

record backend =
  be_origin :: string
  be_from_date_param :: bool
  be_run :: "fetch_call \<Rightarrow> item list \<times> error option"

record 'doc ocean =
  perceval_backend :: "backend option"
  last_update :: "datetime option"
  from_date :: "datetime option"
  fetch_cache :: bool
  project :: "string option"
  elastic_scroll_id :: "string option"
  elastic_page :: nat
  iter_items :: "'doc list"

text \<open>
  \<open>add_update_date\<close>. The parameter \<open>isoformat\<close> stands for the standard library's
  \<open>datetime.fromtimestamp(v).isoformat()\<close>, which raises for a value that is no number
  or is out of the range of the platform; \<open>item['updated_on']\<close> is read and converted
  first, then \<open>item['timestamp']\<close>, and a missing key raises \<open>KeyError\<close>.
\<close>

definition add_update_date :: "(pyval \<Rightarrow> error + string) \<Rightarrow> item \<Rightarrow> error + item" where
  "add_update_date isoformat it =
     (case i_updated_on it of
        None \<Rightarrow> Inl KeyError
      | Some u \<Rightarrow>
          (case isoformat u of
             Inl e \<Rightarrow> Inl e
           | Inr updated \<Rightarrow>
               (case i_timestamp it of
                  None \<Rightarrow> Inl KeyError
                | Some t \<Rightarrow>
                    (case isoformat t of
                       Inl e \<Rightarrow> Inl e
                     | Inr timestamp \<Rightarrow>
                         Inr (it\<lparr>i_metadata_updated_on := Some updated,
                                 i_metadata_timestamp := Some timestamp\<rparr>)))))"

text \<open>\<open>_items_to_es\<close>: nothing is sent for an empty list.\<close>

definition items_to_es :: "item list \<Rightarrow> elastic \<Rightarrow> elastic" where
  "items_to_es json_items es =
     (if length json_items = 0 then es
      else es\<lparr>bulk_calls := bulk_calls es @ [(json_items, get_field_unique_id)]\<rparr>)"

text \<open>
  The choice of the connector call in \<open>feed\<close>, lines 115 to 148: the boundary read from
  the store, the override, the signature check, then the branches on \<open>fetch_cache\<close>,
  \<open>last_update\<close> and \<open>offset\<close>.
\<close>

definition feed_call ::
  "bool \<Rightarrow> bool \<Rightarrow> datetime option \<Rightarrow> datetime option \<Rightarrow> int option \<Rightarrow> fetch_call" where
  "feed_call use_cache has_param es_last from_date_arg offset =
     (let last_update0 = es_last;
          last_update1 = (case from_date_arg of Some d \<Rightarrow> Some d | None \<Rightarrow> last_update0);
          last_update2 = (if \<not> has_param then None else last_update1)
      in if use_cache then FetchFromCache
         else (case last_update2 of
                 Some d \<Rightarrow>
                   if \<not> truthy_int offset then FetchFromDate (replace_tzinfo_None d)
                   else FetchOffset (the offset)
               | None \<Rightarrow>
                   if truthy_int offset then FetchOffset (the offset) else FetchAll))"

text \<open>
  What the loop does to an item before it batches it, lines 152 to 155: the two ISO
  dates, \<open>_fix_item\<close> (which does nothing) and the project tag.
\<close>

definition tag_item ::
  "(pyval \<Rightarrow> error + string) \<Rightarrow> string option \<Rightarrow> item \<Rightarrow> error + item" where
  "tag_item isoformat proj it0 =
     (case add_update_date isoformat it0 of
        Inl e \<Rightarrow> Inl e
      | Inr it1 \<Rightarrow> Inr (if truthy_str proj then it1\<lparr>i_project := proj\<rparr> else it1))"

text \<open>
  The body of the loop over the items, lines 149 to 162, on the state
  \<open>(items_pack, elastic, drop)\<close>; an exception of \<open>add_update_date\<close> leaves the
  body before anything else is done.
\<close>

definition feed_step ::
  "(pyval \<Rightarrow> error + string) \<Rightarrow> (item \<Rightarrow> bool) \<Rightarrow> string option \<Rightarrow> item \<Rightarrow>
   item list \<times> elastic \<times> nat \<Rightarrow> error + item list \<times> elastic \<times> nat" where
  "feed_step isoformat drop_item proj it0 s =
     (case s of (items_pack, es, ndrop) \<Rightarrow>
        (case tag_item isoformat proj it0 of
           Inl e \<Rightarrow> Inl e
         | Inr it2 \<Rightarrow>
             let (pack1, es1) =
                   (if int (length items_pack) \<ge> max_items_bulk es
                    then ([], items_to_es items_pack es)
                    else (items_pack, es))
             in if \<not> drop_item it2 then Inr (pack1 @ [it2], es1, ndrop)
                else Inr (pack1, es1, ndrop + 1)))"

text \<open>
  The loop: the exception that ended it, if any, and the state it had reached. What
  was flushed before an exception stays in the store; the items still in the pack are
  lost with it.
\<close>

fun feed_loop ::
  "(pyval \<Rightarrow> error + string) \<Rightarrow> (item \<Rightarrow> bool) \<Rightarrow> string option \<Rightarrow> item list \<Rightarrow>
   item list \<times> elastic \<times> nat \<Rightarrow> error option \<times> item list \<times> elastic \<times> nat" where
  "feed_loop isoformat drop_item proj [] s = (None, s)"
| "feed_loop isoformat drop_item proj (it # its) s =
     (case feed_step isoformat drop_item proj it s of
        Inl e \<Rightarrow> (Some e, s)
      | Inr s1 \<Rightarrow> feed_loop isoformat drop_item proj its s1)"

text \<open>
  \<open>feed(from_date, offset)\<close>. The result is the exception that ended the pass, if
  any, the ocean object, the store client, the connector call that was made and the
  number of dropped items. The loop runs over the items the connector yields; when an
  exception ends it, raised in its body or by the connector after its last item, the
  final \<open>_items_to_es\<close> is not reached.
\<close>

definition feed ::
  "(pyval \<Rightarrow> error + string) \<Rightarrow> (item \<Rightarrow> bool) \<Rightarrow> 'doc ocean \<Rightarrow> elastic \<Rightarrow>
   datetime option \<Rightarrow> int option \<Rightarrow>
   error option \<times> 'doc ocean \<times> elastic \<times> fetch_call option \<times> nat" where
  "feed isoformat drop_item oc es from_date_arg offset =
     (case perceval_backend oc of
        None \<Rightarrow> (Some AttributeError, oc, es, None, 0)
      | Some be \<Rightarrow>
          let origin_filter = (''origin'', be_origin be);
              oc1 = oc\<lparr>last_update := get_last_update_from_es es origin_filter\<rparr>;
              call = feed_call (fetch_cache oc1) (be_from_date_param be) (last_update oc1)
                       from_date_arg offset;
              (its, err) = be_run be call
          in case feed_loop isoformat drop_item (project oc1) its ([], es, 0) of
               (Some e, items_pack, es1, ndrop) \<Rightarrow> (Some e, oc1, es1, Some call, ndrop)
             | (None, items_pack, es1, ndrop) \<Rightarrow>
                 (case err of
                    Some e \<Rightarrow> (Some e, oc1, es1, Some call, ndrop)
                  | None \<Rightarrow> (None, oc1, items_to_es items_pack es1, Some call, ndrop)))"

subsection \<open>Read-back iterator\<close>

text \<open>
  What a \<open>requests.post\<close> to the index store gives: no response at all (the call
  raises), a body that \<open>r.json()\<close> cannot decode, or a decoded body. Of a decoded body
  the code reads the value under \<open>_scroll_id\<close>, if the key is there, and the
  \<open>_source\<close> of every hit under \<open>hits\<close>, if that key is there.
\<close>

record 'doc rjson =
  rj_scroll_id :: "string option"
  rj_hits :: "'doc list option"

datatype 'doc response = Unreachable | NotJson | Json "'doc rjson"

text \<open>
  The requests \<open>_get_elastic_items\<close> posts: the first search, with its page size, its
  origin filter, its lower bound on the date field and the field it sorts on in
  ascending order, or the continuation of a scroll.
\<close>

datatype es_request =
    Search nat "string option" "datetime option" "string option"
  | Scroll string

text \<open>
  The index store seen from the iterator: the responses it will give to the next
  requests, the requests posted so far and the number of warnings logged. A request
  that finds no response left is a request to a store that cannot be reached.
\<close>

record 'doc es_world =
  pending :: "'doc response list"
  posted :: "es_request list"
  warnings :: nat

definition es_query :: "'doc ocean \<Rightarrow> es_request" where
  "es_query oc =
     (if truthy_str (elastic_scroll_id oc) then Scroll (the (elastic_scroll_id oc))
      else Search (elastic_page oc)
             (case perceval_backend oc of
                None \<Rightarrow> None
              | Some be \<Rightarrow> if be_origin be \<noteq> [] then Some (be_origin be) else None)
             (from_date oc)
             (case perceval_backend oc of
                None \<Rightarrow> None
              | Some be \<Rightarrow> Some ''metadata__updated_on''))"

text \<open>
  \<open>_get_elastic_items\<close>. The \<open>post\<close> is outside the \<open>try\<close>, so a failing one
  raises. When \<open>r.json()\<close> raises, the handler logs two warnings and binds nothing, and
  the test \<open>if rjson and ...\<close> that follows reads a local that was never assigned.
\<close>

definition get_elastic_items ::
  "'doc ocean \<Rightarrow> 'doc es_world \<Rightarrow> (error + 'doc list) \<times> 'doc ocean \<times> 'doc es_world" where
  "get_elastic_items oc w =
     (let w1 = w\<lparr>posted := posted w @ [es_query oc]\<rparr>
      in case pending w of
           [] \<Rightarrow> (Inl ConnectionError, oc, w1)
         | Unreachable # rs \<Rightarrow> (Inl ConnectionError, oc, w1\<lparr>pending := rs\<rparr>)
         | NotJson # rs \<Rightarrow>
             (Inl UnboundLocalError, oc, w1\<lparr>pending := rs, warnings := warnings w + 2\<rparr>)
         | Json rj # rs \<Rightarrow>
             (let oc1 = oc\<lparr>elastic_scroll_id := rj_scroll_id rj\<rparr>
              in case rj_hits rj of
                   Some hs \<Rightarrow> (Inr hs, oc1, w1\<lparr>pending := rs\<rparr>)
                 | None \<Rightarrow> (Inr [], oc1, w1\<lparr>pending := rs, warnings := warnings w + 1\<rparr>)))"

text \<open>\<open>__iter__\<close>: the scroll is reset, the page size set to 10, the first page read.\<close>

definition ocean_iter ::
  "'doc ocean \<Rightarrow> 'doc es_world \<Rightarrow> error option \<times> 'doc ocean \<times> 'doc es_world" where
  "ocean_iter oc w =
     (case get_elastic_items (oc\<lparr>elastic_scroll_id := None, elastic_page := 10\<rparr>) w of
        (Inl e, oc1, w1) \<Rightarrow> (Some e, oc1, w1)
      | (Inr its, oc1, w1) \<Rightarrow> (None, oc1\<lparr>iter_items := its\<rparr>, w1))"

text \<open>What one call of \<open>__next__\<close> gives its caller.\<close>

datatype 'doc step = Yield 'doc | StopIteration | Raise error

text \<open>The refill of the buffer in \<open>__next__\<close>, done only while a scroll id is held.\<close>

definition refill ::
  "'doc ocean \<Rightarrow> 'doc es_world \<Rightarrow> error option \<times> 'doc ocean \<times> 'doc es_world" where
  "refill oc w =
     (if truthy_str (elastic_scroll_id oc)
      then (case get_elastic_items oc w of
              (Inl e, oc1, w1) \<Rightarrow> (Some e, oc1, w1)
            | (Inr its, oc1, w1) \<Rightarrow> (None, oc1\<lparr>iter_items := its\<rparr>, w1))
      else (None, oc, w))"

text \<open>\<open>__next__\<close>: \<open>list.pop()\<close> takes the last element of the buffer.\<close>

function ocean_next ::
  "'doc ocean \<Rightarrow> 'doc es_world \<Rightarrow> 'doc step \<times> 'doc ocean \<times> 'doc es_world" where
  "ocean_next oc w =
     (if length (iter_items oc) > 0
      then (Yield (last (iter_items oc)), oc\<lparr>iter_items := butlast (iter_items oc)\<rparr>, w)
      else (case refill oc w of
              (Some e, oc1, w1) \<Rightarrow> (Raise e, oc1, w1)
            | (None, oc1, w1) \<Rightarrow>
                if length (iter_items oc1) > 0 then ocean_next oc1 w1
                else (StopIteration, oc1, w1)))"
  by pat_completeness auto
termination
  by (relation "measure (\<lambda>(oc, w). if iter_items oc = [] then 1 else 0)") auto

declare ocean_next.simps [simp del]

text \<open>
  A consumer's \<open>for\<close> loop over the iterator calls \<open>__next__\<close> until it raises: the
  documents it was given, the exception other than \<open>StopIteration\<close> that ended the
  loop if one did, and the final state.
\<close>

lemma get_elastic_items_consumes:
  "get_elastic_items oc w = (Inr its, oc1, w1) \<Longrightarrow> length (pending w1) < length (pending w)"
  by (auto simp: get_elastic_items_def Let_def
      split: list.splits response.splits option.splits)

lemma ocean_next_yield_decreases:
  "ocean_next oc w = (Yield d, oc1, w1) \<Longrightarrow>
     length (pending w1) < length (pending w) \<or>
     (pending w1 = pending w \<and> length (iter_items oc1) < length (iter_items oc))"
  apply (subst (asm) ocean_next.simps)
  apply (auto simp: refill_def ocean_next.simps [of "x\<lparr>iter_items := y\<rparr>" for x y]
      split: if_splits prod.splits option.splits sum.splits
      dest: get_elastic_items_consumes)
  done

function iterate ::
  "'doc ocean \<Rightarrow> 'doc es_world \<Rightarrow> 'doc list \<times> error option \<times> 'doc ocean \<times> 'doc es_world" where
  "iterate oc w =
     (case ocean_next oc w of
        (Yield d, oc1, w1) \<Rightarrow> (case iterate oc1 w1 of (ds, r) \<Rightarrow> (d # ds, r))
      | (StopIteration, oc1, w1) \<Rightarrow> ([], None, oc1, w1)
      | (Raise e, oc1, w1) \<Rightarrow> ([], Some e, oc1, w1))"
  by pat_completeness auto
termination
  apply (relation "measures [\<lambda>(oc, w). length (pending w), \<lambda>(oc, w). length (iter_items oc)]")
   apply simp
  apply (auto dest: ocean_next_yield_decreases [OF sym])
  done

text \<open>\<open>for doc in ocean\<close>: \<open>__iter__\<close>, then the loop.\<close>

definition ocean_items ::
  "'doc ocean \<Rightarrow> 'doc es_world \<Rightarrow> 'doc list \<times> error option \<times> 'doc ocean \<times> 'doc es_world" where
  "ocean_items oc w =
     (case ocean_iter oc w of
        (Some e, oc1, w1) \<Rightarrow> ([], Some e, oc1, w1)
      | (None, oc1, w1) \<Rightarrow> iterate oc1 w1)"

section \<open>Bugzilla connector (perceval/backends/bugzilla.py)\<close>

text \<open>
  Raw blocks are strings. A row of the CSV bug list is a dictionary whose values are
  whatever the CSV reader gave; an event of a bug's activity is a dictionary of strings.
  Of a bug parsed from the details XML the code reads \<open>bug['bug_id'][0]['__text__']\<close>
  and \<open>bug['delta_ts'][0]['__text__']\<close>, either of which may be missing, and it sets
  \<open>bug['activity']\<close>.
\<close>

type_synonym raw = string
type_synonym summary = "(string \<times> pyval) list"
type_synonym event = "(string \<times> string) list"

record bug =
  bug_id :: "pystr option"
  delta_ts :: "string option"
  payload :: string
  activity :: "event list option"

text \<open>
  What the connector takes from outside this file: \<open>DEFAULT_DATETIME\<close> and
  \<open>str_to_datetime\<close> of \<open>utils\<close>, the CSV reader, \<open>xml_to_dict\<close> and the HTML
  parser behind the three payload parsers, the identity field the metadata wrapper
  reads, and the SHA-1 of the standard library. A parser gives nothing where the Python
  raises: the CSV reader its own error, the two other parsers \<open>ParseError\<close>, under
  which name the exceptions that a malformed activity table makes the HTML walk raise
  are recorded too. None of them is a cache error.
\<close>

record env =
  p_default_datetime :: datetime
  p_str_to_datetime :: "pyval \<Rightarrow> datetime option"
  p_buglist :: "raw \<Rightarrow> summary list option"
  p_bugs_details :: "raw \<Rightarrow> bug list option"
  p_bug_activity :: "raw \<Rightarrow> event list option"
  p_metadata_id :: "bug \<Rightarrow> pyval option"
  p_sha1_hex :: "nat list \<Rightarrow> string"

definition str_to_datetime :: "env \<Rightarrow> pyval \<Rightarrow> error + datetime" where
  "str_to_datetime env ts =
     (case p_str_to_datetime env ts of None \<Rightarrow> Inl InvalidDateError | Some d \<Rightarrow> Inr d)"

definition parse_buglist :: "env \<Rightarrow> raw \<Rightarrow> error + summary list" where
  "parse_buglist env raw_csv =
     (case p_buglist env raw_csv of None \<Rightarrow> Inl CsvError | Some rows \<Rightarrow> Inr rows)"

definition parse_bugs_details :: "env \<Rightarrow> raw \<Rightarrow> error + bug list" where
  "parse_bugs_details env raw_xml =
     (case p_bugs_details env raw_xml of None \<Rightarrow> Inl ParseError | Some bs \<Rightarrow> Inr bs)"

definition parse_bug_activity :: "env \<Rightarrow> raw \<Rightarrow> error + event list" where
  "parse_bug_activity env raw_html =
     (case p_bug_activity env raw_html of None \<Rightarrow> Inl ParseError | Some evs \<Rightarrow> Inr evs)"

text \<open>
  \<open>datetime.max\<close> is the last second of the year 9999, counted from the first day of
  the year 1; adding a \<open>timedelta\<close> beyond it raises \<open>OverflowError\<close>.
\<close>

definition datetime_max_secs :: int where
  "datetime_max_secs = 315537897599"

definition add_one_second :: "datetime \<Rightarrow> error + datetime" where
  "add_one_second d =
     (if secs d + 1 > datetime_max_secs then Inl OverflowError
      else Inr (d\<lparr>secs := secs d + 1\<rparr>))"

text \<open>
  The calls of the Bugzilla client, and the two things the connector does to the outside
  that the properties speak of: a call of the client and a \<open>cache.store\<close>.
\<close>

datatype request = ReqBuglist datetime | ReqBugs "pyval list" | ReqActivity pystr

datatype action = Call request | Store "raw list"

text \<open>
  The server as a fixed sequence of responses, one taken by each call of the client in
  turn, a response being a body or the exception the client raises
  (\<open>raise_for_status\<close>, a failed version check, a date it cannot format); and the
  trace of what was done so far. A call that finds the sequence exhausted gets no
  response.
\<close>

record world =
  w_pending :: "(error + raw) list"
  w_trace :: "action list"

definition client_call :: "request \<Rightarrow> world \<Rightarrow> (error + raw) \<times> world" where
  "client_call rq w =
     (let w1 = w\<lparr>w_trace := w_trace w @ [Call rq]\<rparr>
      in case w_pending w of
           [] \<Rightarrow> (Inl ConnectionError, w1)
         | r # rs \<Rightarrow> (r, w1\<lparr>w_pending := rs\<rparr>))"

text \<open>
  Modelled from the spec: the \<open>Cache\<close> class is not among the sources. \<open>store\<close>
  appends its blocks to the stored sequence, \<open>retrieve\<close> gives the stored blocks back
  in their original order, and either fails with a cache error when the storage
  location is inaccessible.
\<close>

record cache_state =
  c_blocks :: "raw list"
  c_accessible :: bool


definition cache_retrieve :: "cache_state \<Rightarrow> error + raw list" where
  "cache_retrieve c = (if c_accessible c then Inr (c_blocks c) else Inl CacheError)"

text \<open>The connector object; its origin is its URL.\<close>

record bugzilla =
  url :: pystr
  max_bugs :: nat
  cache :: "cache_state option"
  cache_queue :: "raw list"

text \<open>\<open>Bugzilla.__init__\<close>: \<open>self.max_bugs = max(1, max_bugs)\<close>.\<close>

definition bugzilla_init :: "pystr \<Rightarrow> int \<Rightarrow> cache_state option \<Rightarrow> bugzilla" where
  "bugzilla_init u mb c = \<lparr>url = u, max_bugs = nat (max 1 mb), cache = c, cache_queue = []\<rparr>"




text \<open>\<open>get_update_time(item)\<close>.\<close>

definition get_update_time :: "bug \<Rightarrow> error + string" where
  "get_update_time b = (case delta_ts b of None \<Rightarrow> Inl KeyError | Some t \<Rightarrow> Inr t)"

text \<open>
  A wrapped record. Modelled from the spec: the \<open>metadata\<close> decorator that
  bugzilla.py applies to \<open>fetch\<close> and \<open>fetch_from_cache\<close> belongs to a version of
  backend.py that is not among the sources. As the specification's data model has it,
  and as the decorator of the backend.py under src does, each yielded bug is wrapped
  with the origin, with \<open>uuid(origin, recordId)\<close> and with the update time, here the
  one \<open>get_update_time\<close> reads; the wall-clock time of the wrapping is left out.
\<close>

record witem =
  wi_origin :: pystr
  wi_uuid :: string
  wi_updated_on :: string
  wi_data :: bug

definition metadata :: "env \<Rightarrow> pystr \<Rightarrow> bug \<Rightarrow> error + witem" where
  "metadata env orig b =
     (case p_metadata_id env b of
        None \<Rightarrow> Inl KeyError
      | Some rid \<Rightarrow>
          (case uuid (p_sha1_hex env) [Str orig, rid] of
             Inl e \<Rightarrow> Inl e
           | Inr u \<Rightarrow>
               (case get_update_time b of
                  Inl e \<Rightarrow> Inl e
                | Inr t \<Rightarrow>
                    Inr \<lparr>wi_origin = orig, wi_uuid = u, wi_updated_on = t, wi_data = b\<rparr>)))"

text \<open>\<open>__fetch_and_parse_buglist_page\<close>.\<close>

definition fetch_and_parse_buglist_page ::
  "env \<Rightarrow> datetime \<Rightarrow> world \<Rightarrow> (error + summary list) \<times> world" where
  "fetch_and_parse_buglist_page env fd w =
     (case client_call (ReqBuglist fd) w of
        (Inl e, w1) \<Rightarrow> (Inl e, w1)
      | (Inr raw_csv, w1) \<Rightarrow> (parse_buglist env raw_csv, w1))"

text \<open>The lower bound of the next page: one second after the date of the last bug.\<close>

definition next_from_date :: "env \<Rightarrow> pyval \<Rightarrow> error + datetime" where
  "next_from_date env last_date =
     (case str_to_datetime env last_date of
        Inl e \<Rightarrow> Inl e
      | Inr d \<Rightarrow> add_one_second d)"

lemma client_call_consumes:
  "client_call rq w = (Inr r, w1) \<Longrightarrow> length (w_pending w1) < length (w_pending w)"
  by (auto simp: client_call_def Let_def split: list.splits)

lemma buglist_page_consumes:
  "fetch_and_parse_buglist_page env fd w = (Inr page, w1) \<Longrightarrow>
     length (w_pending w1) < length (w_pending w)"
  by (auto simp: fetch_and_parse_buglist_page_def split: prod.splits sum.splits
      dest: client_call_consumes)

text \<open>
  The \<open>while buglist\<close> loop of \<open>__fetch_buglist\<close>, entered with the current page: the
  bugs it yields, the exception that ended it if one did, and the world after it.
\<close>

function fetch_buglist_loop ::
  "env \<Rightarrow> summary list \<Rightarrow> world \<Rightarrow> summary list \<times> error option \<times> world" where
  "fetch_buglist_loop env [] w = ([], None, w)"
| "fetch_buglist_loop env (b # buglist) w =
     (case map_of b ''changeddate'' of
        None \<Rightarrow> ([], Some KeyError, w)
      | Some last_date \<Rightarrow>
          if buglist \<noteq> []
          then (case fetch_buglist_loop env buglist w of (bs, r) \<Rightarrow> (b # bs, r))
          else (case next_from_date env last_date of
                  Inl e \<Rightarrow> ([b], Some e, w)
                | Inr fd \<Rightarrow>
                    (case fetch_and_parse_buglist_page env fd w of
                       (Inl e, w1) \<Rightarrow> ([b], Some e, w1)
                     | (Inr page, w1) \<Rightarrow>
                         (case fetch_buglist_loop env page w1 of (bs, r) \<Rightarrow> (b # bs, r)))))"
  by pat_completeness auto
termination
  apply (relation "measures [\<lambda>(env, bl, w). length (w_pending w), \<lambda>(env, bl, w). length bl]")
    apply simp
   apply simp
  apply (auto dest: buglist_page_consumes [OF sym])
  done

text \<open>\<open>__fetch_buglist(from_date)\<close>: the first page, then the loop.\<close>

definition fetch_buglist ::
  "env \<Rightarrow> datetime \<Rightarrow> world \<Rightarrow> summary list \<times> error option \<times> world" where
  "fetch_buglist env fd w =
     (case fetch_and_parse_buglist_page env fd w of
        (Inl e, w1) \<Rightarrow> ([], Some e, w1)
      | (Inr page, w1) \<Rightarrow> fetch_buglist_loop env page w1)"










text \<open>
  The loop over the parsed bugs in \<open>fetch_from_cache\<close>, lines 142 to 154, on what is
  left of the cached sequence: the records yielded, the exception if any, and what is
  left after it.
\<close>

fun replay_bugs ::
  "env \<Rightarrow> pystr \<Rightarrow> bug list \<Rightarrow> raw list \<Rightarrow> witem list \<times> error option \<times> raw list" where
  "replay_bugs env orig [] cache_items = ([], None, cache_items)"
| "replay_bugs env orig (b # bs) cache_items =
     (case cache_items of
        [] \<Rightarrow> ([], Some CacheError, [])
      | raw_activity # rest \<Rightarrow>
          (case parse_bug_activity env raw_activity of
             Inl e \<Rightarrow> ([], Some e, rest)
           | Inr evs \<Rightarrow>
               (case metadata env orig (b\<lparr>activity := Some evs\<rparr>) of
                  Inl e \<Rightarrow> ([], Some e, rest)
                | Inr it \<Rightarrow>
                    (case replay_bugs env orig bs rest of (its, r) \<Rightarrow> (it # its, r)))))"

lemma replay_bugs_length:
  "replay_bugs env orig bs cache_items = (its, r, rest) \<Longrightarrow> length rest \<le> length cache_items"
proof (induction bs arbitrary: cache_items its)
  case Nil
  then show ?case by simp
next
  case (Cons b bs)
  then show ?case
    by (fastforce split: list.splits sum.splits prod.splits)
qed

text \<open>The \<open>while True\<close> loop of \<open>fetch_from_cache\<close>, lines 134 to 154.\<close>

function replay_loop :: "env \<Rightarrow> pystr \<Rightarrow> raw list \<Rightarrow> witem list \<times> error option" where
  "replay_loop env orig [] = ([], None)"
| "replay_loop env orig (raw_bugs # cache_items) =
     (case parse_bugs_details env raw_bugs of
        Inl e \<Rightarrow> ([], Some e)
      | Inr bugs \<Rightarrow>
          (case replay_bugs env orig bugs cache_items of
             (its, Some e, rest) \<Rightarrow> (its, Some e)
           | (its, None, rest) \<Rightarrow>
               (case replay_loop env orig rest of (its', r) \<Rightarrow> (its @ its', r))))"
  by pat_completeness auto
termination
  apply (relation "measure (\<lambda>(env, orig, cache_items). length cache_items)")
   apply simp
  apply (auto dest: replay_bugs_length [OF sym])
  done

text \<open>
  \<open>fetch_from_cache()\<close> consumed to its end. It is given the world and hands it back
  as it was: nothing in it calls the client.
\<close>

definition fetch_from_cache ::
  "env \<Rightarrow> bugzilla \<Rightarrow> world \<Rightarrow> witem list \<times> error option \<times> bugzilla \<times> world" where
  "fetch_from_cache env conn w =
     (case cache conn of
        None \<Rightarrow> ([], Some CacheError, conn, w)
      | Some c \<Rightarrow>
          (case cache_retrieve c of
             Inl e \<Rightarrow> ([], Some e, conn, w)
           | Inr cache_items \<Rightarrow>
               (case replay_loop env (url conn) cache_items of (its, r) \<Rightarrow> (its, r, conn, w))))"

declare replay_loop.simps [simp del]

text \<open>
  The records that the bugs parsed from one details block and the activity blocks
  paired with them, one for one, assemble to; nothing when the blocks are too few or
  too many, when an activity does not parse or when a bug cannot be wrapped.
\<close>

fun assemble :: "env \<Rightarrow> pystr \<Rightarrow> bug list \<Rightarrow> raw list \<Rightarrow> witem list option" where
  "assemble env orig [] [] = Some []"
| "assemble env orig (b # bs) (a # as) =
     (case p_bug_activity env a of
        None \<Rightarrow> None
      | Some evs \<Rightarrow>
          (case metadata env orig (b\<lparr>activity := Some evs\<rparr>) of
             Inl e \<Rightarrow> None
           | Inr it \<Rightarrow> map_option ((#) it) (assemble env orig bs as)))"
| "assemble env orig bs as = None"








text \<open>
  The cached sequence runs out in the middle of a unit. Read unit by unit, a details
  block and then one activity block for each of its bugs: every unit before the last
  is complete and assembles to records, and the last has a details block that parses
  and, after it, fewer activity blocks than bugs, each of them good for its bug.
\<close>

function starved :: "env \<Rightarrow> pystr \<Rightarrow> raw list \<Rightarrow> bool" where
  "starved env orig [] = False"
| "starved env orig (d # rest) =
     (case p_bugs_details env d of
        None \<Rightarrow> False
      | Some bugs \<Rightarrow>
          if length rest < length bugs
          then assemble env orig (take (length rest) bugs) rest \<noteq> None
          else (case assemble env orig bugs (take (length bugs) rest) of
                  None \<Rightarrow> False
                | Some its \<Rightarrow> starved env orig (drop (length bugs) rest)))"
  by pat_completeness auto
termination
  by (relation "measure (\<lambda>(env, orig, blocks). length blocks)") auto

declare starved.simps [simp del]

declare fetch_buglist_loop.simps [simp del]

text \<open>The rows of a bug list body that the CSV reader accepts.\<close>

definition buglist_rows :: "env \<Rightarrow> raw \<Rightarrow> summary list" where
  "buglist_rows env raw_csv = (case p_buglist env raw_csv of None \<Rightarrow> [] | Some rows \<Rightarrow> rows)"

text \<open>
  The lower bound the paging rule names for the page after a given one: the
  \<open>changeddate\<close> of its last bug, read as a date, plus one second.
\<close>

definition last_date_plus_one :: "env \<Rightarrow> summary list \<Rightarrow> datetime" where
  "last_date_plus_one env page =
     (let d = the (p_str_to_datetime env (the (map_of (last page) ''changeddate'')))
      in d\<lparr>secs := secs d + 1\<rparr>)"

text \<open>The items of a pass that \<open>drop_item\<close> lets through, tagged as the loop tags them.\<close>

definition survivors ::
  "(pyval \<Rightarrow> error + string) \<Rightarrow> (item \<Rightarrow> bool) \<Rightarrow> string option \<Rightarrow> item list \<Rightarrow> item list" where
  "survivors isoformat drop_item proj its =
     (case traverse (tag_item isoformat proj) its of
        Inl e \<Rightarrow> []
      | Inr ts \<Rightarrow> filter (\<lambda>it. \<not> drop_item it) ts)"

text \<open>A page as a well-formed scroll response gives it: a scroll token and the hits.\<close>

definition page_of :: "string \<Rightarrow> 'doc list \<Rightarrow> 'doc response" where
  "page_of tok hs = Json \<lparr>rj_scroll_id = Some tok, rj_hits = Some hs\<rparr>"

text \<open>The results of \<open>n\<close> successive calls of \<open>__next__\<close>.\<close>

fun next_n ::
  "nat \<Rightarrow> 'doc ocean \<Rightarrow> 'doc es_world \<Rightarrow> 'doc step list \<times> 'doc ocean \<times> 'doc es_world" where
  "next_n 0 oc w = ([], oc, w)"
| "next_n (Suc n) oc w =
     (case ocean_next oc w of
        (r, oc1, w1) \<Rightarrow> (case next_n n oc1 w1 of (rs, oc2, w2) \<Rightarrow> (r # rs, oc2, w2)))"

text \<open>A connector, an ocean object, a store client and a scripted store to run the code on.\<close>

definition example_item :: "int \<Rightarrow> item" where
  "example_item n =
     \<lparr>i_uuid = ''u'', i_origin = ''http://example.com'', i_updated_on = Some (IntVal n),
      i_timestamp = Some (FloatVal n 0),
      i_metadata_updated_on = None, i_metadata_timestamp = None, i_project = None\<rparr>"

definition example_backend :: "bool \<Rightarrow> backend" where
  "example_backend has_param =
     \<lparr>be_origin = ''http://example.com'', be_from_date_param = has_param,
      be_run = (\<lambda>c. ([example_item 1, example_item 2, example_item 3], None))\<rparr>"

definition example_ocean :: "bool \<Rightarrow> bool \<Rightarrow> nat list \<Rightarrow> nat ocean" where
  "example_ocean has_param use_cache buf =
     \<lparr>perceval_backend = Some (example_backend has_param), last_update = None,
      from_date = None, fetch_cache = use_cache, project = None,
      elastic_scroll_id = None, elastic_page = 10, iter_items = buf\<rparr>"

definition example_elastic :: elastic where
  "example_elastic =
     \<lparr>max_items_bulk = 2,
      es_docs = [\<lparr>sd_origin = ''http://example.com'', sd_dates = [(''metadata__updated_on'', 7)]\<rparr>,
                 \<lparr>sd_origin = ''http://example.com'', sd_dates = [(''metadata__updated_on'', 5)]\<rparr>,
                 \<lparr>sd_origin = ''http://other.org'', sd_dates = [(''metadata__updated_on'', 9)]\<rparr>],
      bulk_calls = []\<rparr>"

definition example_store :: "nat response list \<Rightarrow> nat es_world" where
  "example_store rs = \<lparr>pending = rs, posted = [], warnings = 0\<rparr>"

definition example_tagged :: "int \<Rightarrow> item" where
  "example_tagged n =
     (example_item n)\<lparr>i_metadata_updated_on := Some ''t'', i_metadata_timestamp := Some ''t''\<rparr>"

text \<open>A payload format, a server script and a connector to run the Bugzilla code on.\<close>

definition example_row :: "char \<Rightarrow> summary" where
  "example_row c = [(''bug_id'', Str [of_char c]), (''changeddate'', Str [of_char c])]"

definition example_bug :: "char \<Rightarrow> bug" where
  "example_bug c =
     \<lparr>bug_id = Some [of_char c], delta_ts = Some [c], payload = [], activity = None\<rparr>"

definition example_env :: env where
  "example_env =
     \<lparr>p_default_datetime = \<lparr>secs = 0, tzinfo = None\<rparr>,
      p_str_to_datetime =
        (\<lambda>v. case v of Str [n] \<Rightarrow> Some \<lparr>secs = int n, tzinfo = None\<rparr> | _ \<Rightarrow> None),
      p_buglist = (\<lambda>r. Some (map example_row r)),
      p_bugs_details = (\<lambda>r. if r = [] then None else Some (map example_bug r)),
      p_bug_activity = (\<lambda>r. Some (map (\<lambda>c. [(''What'', [c])]) r)),
      p_metadata_id = (\<lambda>b. map_option Str (bug_id b)),
      p_sha1_hex = map char_of\<rparr>"

definition example_world :: "(error + raw) list \<Rightarrow> world" where
  "example_world rs = \<lparr>w_pending = rs, w_trace = []\<rparr>"

definition example_cache :: cache_state where
  "example_cache = \<lparr>c_blocks = [], c_accessible = True\<rparr>"

definition example_conn :: bugzilla where
  "example_conn = bugzilla_init [104] 2 (Some example_cache)"

definition example_cached :: "raw list \<Rightarrow> bool \<Rightarrow> bugzilla" where
  "example_cached blocks ok =
     example_conn\<lparr>cache := Some \<lparr>c_blocks = blocks, c_accessible = ok\<rparr>\<rparr>"

lemmas ex_defs = example_ocean_def example_backend_def example_elastic_def
     get_last_update_from_es_def get_field_date_def get_last_date_def origin_dates_def
     feed_call_def feed_step_def items_to_es_def tag_item_def add_update_date_def example_item_def
     replace_tzinfo_None_def get_field_unique_id_def example_store_def survivors_def
     example_tagged_def

text \<open>What the specification calls a valid argument: a non-empty string.\<close>

fun nonempty_str :: "pyval \<Rightarrow> bool" where
  "nonempty_str (Str s) = (s \<noteq> [])"
| "nonempty_str v = False"

fun str_of :: "pyval \<Rightarrow> pystr" where
  "str_of (Str s) = s"
| "str_of v = []"

section \<open>Properties of the identity generator\<close>

lemma traverse_check_ok:
  "list_all nonempty_str args \<Longrightarrow> traverse check_value args = Inr (map str_of args)"
proof (induction args)
  case Nil
  show ?case by simp
next
  case (Cons v vs)
  then obtain s where "v = Str s" "s \<noteq> []"
    by (cases v) auto
  with Cons show ?case by simp
qed

lemma traverse_check_bad:
  "\<not> list_all nonempty_str args \<Longrightarrow> traverse check_value args = Inl ValueError"
proof (induction args)
  case Nil
  then show ?case by simp
next
  case (Cons v vs)
  show ?case
  proof (cases "nonempty_str v")
    case True
    then obtain s where "v = Str s" "s \<noteq> []"
      by (cases v) auto
    with Cons show ?thesis by simp
  next
    case False
    then have "check_value v = Inl ValueError"
      by (cases v) auto
    then show ?thesis by simp
  qed
qed

lemma traverse_encode:
  "traverse encode_char s =
     (if list_all encodable s then Inr (map utf8_bytes s) else Inl UnicodeEncodeError)"
  by (induction s) (auto simp: encode_char_def)

lemma encode_utf8_eq:
  "encode_utf8 s =
     (if list_all encodable s then Inr (concat (map utf8_bytes s)) else Inl UnicodeEncodeError)"
  by (simp add: encode_utf8_def traverse_encode)

text \<open>
  Claim C1, as the code has it. For an argument list whose every element is a non-empty
  string and whose joined text UTF-8 can encode, \<open>uuid\<close> returns the SHA-1 hex digest
  of the UTF-8 bytes of the arguments joined with a colon. A list holding an element
  that is not a string, or is the empty string, raises \<open>ValueError\<close>; a list of
  non-empty strings one of which holds a surrogate code point raises
  \<open>UnicodeEncodeError\<close>; neither returns a digest. The result is a function of the
  argument list alone, so two calls with the same list give the same digest.
\<close>

theorem uuid_digest_or_error:
  "uuid sha1_hex args =
     (if \<not> list_all nonempty_str args then Inl ValueError
      else if list_all encodable (join_str [58] (map str_of args))
      then Inr (sha1_hex (concat (map utf8_bytes (join_str [58] (map str_of args)))))
      else Inl UnicodeEncodeError)"
  by (simp add: uuid_def traverse_check_ok traverse_check_bad encode_utf8_eq)

theorem uuid_digest_or_error_witness:
  "uuid (map char_of) [Str [103, 233], Str [49, 53]] = Inr (map char_of [103, 195, 169, 58, 49, 53 :: nat])
   \<and> uuid (map char_of) [Str [103], Str []] = Inl ValueError
   \<and> uuid (map char_of) [Str [103], NoneVal] = Inl ValueError
   \<and> uuid (map char_of) [Str [103], Str [56832]] = Inl UnicodeEncodeError"
  using uuid_digest_or_error [of "map char_of" "[Str [103, 233], Str [49, 53]]"]
    uuid_digest_or_error [of "map char_of" "[Str [103], Str []]"]
    uuid_digest_or_error [of "map char_of" "[Str [103], NoneVal]"]
    uuid_digest_or_error [of "map char_of" "[Str [103], Str [56832]]"]
  by (simp add: encodable_def utf8_bytes_def)

theorem uuid_lone_surrogate_counterexample:
  "list_all nonempty_str [Str [104, 55296]]
   \<and> uuid (map char_of) [Str [104, 55296]] = Inl UnicodeEncodeError"
  by (simp add: uuid_def encode_utf8_def encode_char_def encodable_def)

section \<open>Properties of the sync engine\<close>

declare chunks.simps [simp del]
declare iterate.simps [simp del]

lemma chunks_Nil [simp]: "chunks k [] = []"
  by (simp add: chunks.simps)

lemma chunks_append_full:
  "length ys = k \<Longrightarrow> 0 < k \<Longrightarrow> chunks k (ys @ xs) = ys # chunks k xs"
  by (subst chunks.simps) auto

lemma chunks_small:
  "xs \<noteq> [] \<Longrightarrow> length xs \<le> k \<Longrightarrow> chunks k xs = [xs]"
  by (subst chunks.simps) (cases k; auto)

lemma concat_chunks: "0 < k \<Longrightarrow> concat (chunks k xs) = xs"
proof (induction k xs rule: chunks.induct)
  case (1 k xs)
  then show ?case
    by (subst chunks.simps) auto
qed

lemma chunks_member: "b \<in> set (chunks k xs) \<Longrightarrow> b \<noteq> [] \<and> length b \<le> k"
proof (induction k xs rule: chunks.induct)
  case (1 k xs)
  from "1.prems" have ne: "\<not> (k = 0 \<or> xs = [])"
    by (subst (asm) chunks.simps) (auto split: if_splits)
  with "1.prems" have "b = take k xs \<or> b \<in> set (chunks k (drop k xs))"
    by (subst (asm) chunks.simps) auto
  then show ?case
  proof
    assume "b = take k xs"
    with ne show ?thesis by auto
  next
    assume "b \<in> set (chunks k (drop k xs))"
    with "1.IH" ne show ?thesis by blast
  qed
qed

lemma chunks_butlast_full: "b \<in> set (butlast (chunks k xs)) \<Longrightarrow> length b = k"
proof (induction k xs rule: chunks.induct)
  case (1 k xs)
  show ?case
  proof (cases "k = 0 \<or> xs = []")
    case True
    with "1.prems" show ?thesis by (simp add: chunks.simps)
  next
    case False
    show ?thesis
    proof (cases "chunks k (drop k xs) = []")
      case True
      with False "1.prems" show ?thesis
        by (subst (asm) chunks.simps) simp
    next
      case ne: False
      then have "drop k xs \<noteq> []" by auto
      then have full: "length (take k xs) = k" by auto
      from False ne "1.prems"
      have "b = take k xs \<or> b \<in> set (butlast (chunks k (drop k xs)))"
        by (subst (asm) chunks.simps) auto
      with full "1.IH" False show ?thesis by blast
    qed
  qed
qed



lemma ocean_next_pop:
  "iter_items oc \<noteq> [] \<Longrightarrow>
     ocean_next oc w = (Yield (last (iter_items oc)), oc\<lparr>iter_items := butlast (iter_items oc)\<rparr>, w)"
  by (subst ocean_next.simps) simp

lemma iterate_drain:
  "iter_items oc = buf \<Longrightarrow>
     iterate oc w = (case iterate (oc\<lparr>iter_items := []\<rparr>) w of (ds, r) \<Rightarrow> (rev buf @ ds, r))"
proof (induction buf arbitrary: oc rule: rev_induct)
  case Nil
  then have "oc\<lparr>iter_items := []\<rparr> = oc" by simp
  then show ?case by (simp split: prod.splits)
next
  case (snoc x xs)
  then have ne: "iter_items oc \<noteq> []" by simp
  have step: "ocean_next oc w = (Yield x, oc\<lparr>iter_items := xs\<rparr>, w)"
    using ocean_next_pop [OF ne, of w] snoc.prems by simp
  have "iterate (oc\<lparr>iter_items := xs\<rparr>) w =
          (case iterate (oc\<lparr>iter_items := []\<rparr>) w of (ds, r) \<Rightarrow> (rev xs @ ds, r))"
    using snoc.IH [of "oc\<lparr>iter_items := xs\<rparr>"] by simp
  then show ?case
    by (subst iterate.simps) (simp add: step split: prod.splits)
qed

lemma next_n_drain:
  "iter_items oc = buf \<Longrightarrow>
     next_n (length buf) oc w = (map Yield (rev buf), oc\<lparr>iter_items := []\<rparr>, w)"
proof (induction buf arbitrary: oc rule: rev_induct)
  case Nil
  then show ?case by simp
next
  case (snoc x xs)
  then have ne: "iter_items oc \<noteq> []" by simp
  have step: "ocean_next oc w = (Yield x, oc\<lparr>iter_items := xs\<rparr>, w)"
    using ocean_next_pop [OF ne, of w] snoc.prems by simp
  from snoc.IH [of "oc\<lparr>iter_items := xs\<rparr>"] step show ?case by simp
qed

lemma iterate_no_token:
  "iter_items oc = [] \<Longrightarrow> \<not> truthy_str (elastic_scroll_id oc) \<Longrightarrow>
     iterate oc w = ([], None, oc, w)"
  by (subst iterate.simps, subst ocean_next.simps) (simp add: refill_def)

lemma get_elastic_items_page:
  "pending w = Json \<lparr>rj_scroll_id = sid, rj_hits = Some hs\<rparr> # rs \<Longrightarrow>
     get_elastic_items oc w =
       (Inr hs, oc\<lparr>elastic_scroll_id := sid\<rparr>,
        w\<lparr>posted := posted w @ [es_query oc], pending := rs\<rparr>)"
  by (simp add: get_elastic_items_def Let_def)

lemma iterate_refill:
  assumes "iter_items oc = []" "elastic_scroll_id oc = Some tok" "tok \<noteq> []"
    and "pending w = Json \<lparr>rj_scroll_id = sid, rj_hits = Some hs\<rparr> # rs"
  shows "iterate oc w =
     (if hs = []
      then ([], None, oc\<lparr>elastic_scroll_id := sid, iter_items := []\<rparr>,
            w\<lparr>posted := posted w @ [Scroll tok], pending := rs\<rparr>)
      else iterate (oc\<lparr>elastic_scroll_id := sid, iter_items := hs\<rparr>)
            (w\<lparr>posted := posted w @ [Scroll tok], pending := rs\<rparr>))"
proof -
  let ?w1 = "w\<lparr>posted := posted w @ [Scroll tok], pending := rs\<rparr>"
  let ?oc1 = "oc\<lparr>elastic_scroll_id := sid, iter_items := hs\<rparr>"
  have q: "es_query oc = Scroll tok" using assms(2,3) by (simp add: es_query_def)
  have r: "refill oc w = (None, ?oc1, ?w1)"
    using assms(2,3) get_elastic_items_page [OF assms(4), of oc] q
    by (simp add: refill_def)
  show ?thesis
  proof (cases "hs = []")
    case True
    have "ocean_next oc w = (StopIteration, ?oc1, ?w1)"
      using assms(1) r True by (subst ocean_next.simps) simp
    with True show ?thesis by (subst iterate.simps) simp
  next
    case False
    have "ocean_next oc w = ocean_next ?oc1 ?w1"
      using assms(1) r False by (subst ocean_next.simps) simp
    then have "iterate oc w = iterate ?oc1 ?w1"
      by (subst iterate.simps, subst (2) iterate.simps) simp
    with False show ?thesis by simp
  qed
qed

lemma iterate_pages:
  assumes "tok \<noteq> []" "\<forall>pg\<in>set pgs. pg \<noteq> []"
    and "iter_items oc = []" "elastic_scroll_id oc = Some tok"
    and "pending w = map (page_of tok) pgs @ page_of tok [] # rest"
  shows "iterate oc w =
           (concat (map rev pgs), None, oc,
            w\<lparr>posted := posted w @ replicate (Suc (length pgs)) (Scroll tok), pending := rest\<rparr>)"
  using assms(2-)
proof (induction pgs arbitrary: w)
  case Nil
  have "oc\<lparr>elastic_scroll_id := Some tok, iter_items := []\<rparr> = oc"
    using Nil.prems by simp
  with Nil.prems assms(1) show ?case
    using iterate_refill [of oc tok w "Some tok" "[]" rest]
    by (simp add: page_of_def)
next
  case (Cons pg pgs)
  let ?w1 = "w\<lparr>posted := posted w @ [Scroll tok], pending := map (page_of tok) pgs @ page_of tok [] # rest\<rparr>"
  let ?oc1 = "oc\<lparr>elastic_scroll_id := Some tok, iter_items := pg\<rparr>"
  have pg: "pg \<noteq> []" using Cons.prems by simp
  have "iterate oc w = iterate ?oc1 ?w1"
    using iterate_refill [of oc tok w "Some tok" pg "map (page_of tok) pgs @ page_of tok [] # rest"]
      Cons.prems assms(1) pg by (simp add: page_of_def)
  also have "\<dots> = (case iterate (?oc1\<lparr>iter_items := []\<rparr>) ?w1 of (ds, r) \<Rightarrow> (rev pg @ ds, r))"
    by (rule iterate_drain) simp
  also have "?oc1\<lparr>iter_items := []\<rparr> = oc"
    using Cons.prems by simp
  also have "iterate oc ?w1 =
      (concat (map rev pgs), None, oc,
       ?w1\<lparr>posted := posted ?w1 @ replicate (Suc (length pgs)) (Scroll tok), pending := rest\<rparr>)"
    using Cons.prems by (intro Cons.IH) simp_all
  finally show ?case
    by (simp add: replicate_app_Cons_same)
qed


lemma ocean_next_stop_iff:
  "fst (ocean_next oc w) = StopIteration \<longleftrightarrow>
     iter_items oc = [] \<and>
     (\<not> truthy_str (elastic_scroll_id oc) \<or> fst (get_elastic_items oc w) = Inr [])"
proof (cases "iter_items oc = []")
  case False
  then show ?thesis by (simp add: ocean_next_pop)
next
  case True
  show ?thesis
  proof (cases "truthy_str (elastic_scroll_id oc)")
    case False
    with True show ?thesis
      by (subst ocean_next.simps) (simp add: refill_def)
  next
    case tok: True
    obtain r oc1 w1 where g: "get_elastic_items oc w = (r, oc1, w1)"
      by (cases "get_elastic_items oc w") auto
    show ?thesis
    proof (cases r)
      case (Inl e)
      with True tok g show ?thesis
        by (subst ocean_next.simps) (simp add: refill_def)
    next
      case (Inr its)
      show ?thesis
      proof (cases "its = []")
        case True
        with \<open>iter_items oc = []\<close> tok g Inr show ?thesis
          by (subst ocean_next.simps) (simp add: refill_def)
      next
        case False
        with \<open>iter_items oc = []\<close> tok g Inr show ?thesis
          by (subst ocean_next.simps) (simp add: refill_def ocean_next_pop)
      qed
    qed
  qed
qed

lemma mset_concat_rev: "mset (concat (map rev xss)) = mset (concat xss)"
  by (induction xss) auto

text \<open>
  Claim C9. A store that holds \<open>E\<close> documents for the iterator's filter and serves
  them in pages of \<open>p\<close> documents, each with a scroll token, followed by an empty page:
  the loop over the iterator receives exactly the \<open>E\<close> documents, each once, and then
  ends with \<open>StopIteration\<close>, having posted the first search and one scroll request per
  page. One call of \<open>__next__\<close> stops exactly when the buffer is empty and either no
  scroll token is held or the refill returned no document.
\<close>

theorem readback_yields_every_document:
  assumes "0 < p" "docs \<noteq> []" "tok \<noteq> []"
    and "pending w = map (page_of tok) (chunks p docs) @ page_of tok [] # rest"
  shows "(\<exists>oc' w'. ocean_items oc w = (concat (map rev (chunks p docs)), None, oc', w')
            \<and> iter_items oc' = [] \<and> pending w' = rest
            \<and> posted w' = posted w
                 @ es_query (oc\<lparr>elastic_scroll_id := None, elastic_page := 10\<rparr>)
                 # replicate (length (chunks p docs)) (Scroll tok))
       \<and> length (concat (map rev (chunks p docs))) = length docs
       \<and> mset (concat (map rev (chunks p docs))) = mset docs
       \<and> (\<forall>oc0 w0. fst (ocean_next oc0 (w0 :: 'a es_world)) = StopIteration \<longleftrightarrow>
             iter_items oc0 = [] \<and>
             (\<not> truthy_str (elastic_scroll_id oc0) \<or> fst (get_elastic_items oc0 w0) = Inr []))"
proof -
  let ?oc0 = "oc\<lparr>elastic_scroll_id := None, elastic_page := 10\<rparr>"
  from assms(1,2) obtain pg pgs where ch: "chunks p docs = pg # pgs"
    by (subst (asm) chunks.simps) (auto split: if_splits intro: that simp: chunks.simps [of p docs])
  have ne: "\<forall>b\<in>set (pg # pgs). b \<noteq> []"
    using chunks_member [of _ p docs] ch by auto
  let ?oc1 = "?oc0\<lparr>elastic_scroll_id := Some tok\<rparr>"
  let ?w1 = "w\<lparr>posted := posted w @ [es_query ?oc0],
               pending := map (page_of tok) pgs @ page_of tok [] # rest\<rparr>"
  have it: "ocean_iter oc w = (None, ?oc1\<lparr>iter_items := pg\<rparr>, ?w1)"
    using get_elastic_items_page [of w "Some tok" pg "map (page_of tok) pgs @ page_of tok [] # rest" ?oc0]
      assms(4) ch by (simp add: ocean_iter_def page_of_def)
  let ?oc2 = "?oc1\<lparr>iter_items := []\<rparr>"
  have dr: "iterate (?oc1\<lparr>iter_items := pg\<rparr>) ?w1 =
          (case iterate ?oc2 ?w1 of (ds, r) \<Rightarrow> (rev pg @ ds, r))"
    using iterate_drain [of "?oc1\<lparr>iter_items := pg\<rparr>" pg ?w1] by simp
  have pgs: "iterate ?oc2 ?w1 =
      (concat (map rev pgs), None, ?oc2,
       ?w1\<lparr>posted := posted ?w1 @ replicate (Suc (length pgs)) (Scroll tok), pending := rest\<rparr>)"
    using ne assms(3) by (intro iterate_pages) simp_all
  have "ocean_items oc w = iterate (?oc1\<lparr>iter_items := pg\<rparr>) ?w1"
    by (simp add: ocean_items_def it)
  also have "\<dots> = (case iterate ?oc2 ?w1 of (ds, r) \<Rightarrow> (rev pg @ ds, r))"
    by (rule dr)
  also have "\<dots> = (rev pg @ concat (map rev pgs), None, ?oc2,
       ?w1\<lparr>posted := posted ?w1 @ replicate (Suc (length pgs)) (Scroll tok), pending := rest\<rparr>)"
    unfolding pgs by simp
  finally have run: "ocean_items oc w =
      (concat (map rev (chunks p docs)), None, ?oc2,
       ?w1\<lparr>posted := posted ?w1 @ replicate (Suc (length pgs)) (Scroll tok), pending := rest\<rparr>)"
    by (simp add: ch)
  have len: "length (concat (map rev (chunks p docs))) = length docs"
    using concat_chunks [OF assms(1), of docs]
    by (metis mset_concat_rev size_mset)
  have ms: "mset (concat (map rev (chunks p docs))) = mset docs"
    using concat_chunks [OF assms(1), of docs] by (simp add: mset_concat_rev)
  from run ch have ex: "\<exists>oc' w'. ocean_items oc w = (concat (map rev (chunks p docs)), None, oc', w')
            \<and> iter_items oc' = [] \<and> pending w' = rest
            \<and> posted w' = posted w @ es_query ?oc0
                 # replicate (length (chunks p docs)) (Scroll tok)"
    by simp
  from ex len ms ocean_next_stop_iff show ?thesis by blast
qed

theorem readback_yields_every_document_witness:
  "fst (ocean_items (example_ocean True False [])
          (example_store (map (page_of ''tok'') (chunks 2 [1, 2, 3]) @ [page_of ''tok'' []]))) =
     [2, 1, 3]
   \<and> fst (snd (ocean_items (example_ocean True False [])
          (example_store (map (page_of ''tok'') (chunks 2 [1, 2, 3]) @ [page_of ''tok'' []])))) =
     None"
proof -
  have p: "pending (example_store (map (page_of ''tok'') (chunks 2 [1, 2, 3]) @ [page_of ''tok'' []])) =
       map (page_of ''tok'') (chunks 2 [1, 2, 3]) @ page_of ''tok'' [] # []"
    by (simp add: example_store_def)
  have c: "chunks 2 [1, 2, 3 :: nat] = [[1, 2], [3]]"
    by (simp add: chunks.simps)
  from readback_yields_every_document [OF _ _ _ p, of "example_ocean True False []"]
  show ?thesis
    unfolding c by auto
qed

text \<open>
  Claim C10. With a non-empty page in the buffer, the next calls of \<open>__next__\<close>, as
  many as the page has documents, return the page's documents in the reverse of the
  order the store gave them and ask the store nothing; so a page the store sorted in
  ascending order of a key reaches the consumer in descending order, although the first
  search of an iterator with a connector asks for ascending order of the update date.
\<close>

theorem next_pops_page_in_reverse:
  fixes key :: "'doc \<Rightarrow> 'k::linorder"
  assumes "iter_items oc = page" "page \<noteq> []"
  shows "next_n (length page) oc w = (map Yield (rev page), oc\<lparr>iter_items := []\<rparr>, w)
       \<and> (sorted (map key page) \<longrightarrow> sorted_wrt (\<lambda>a b. key b \<le> key a) (rev page))
       \<and> (\<not> truthy_str (elastic_scroll_id oc) \<longrightarrow> perceval_backend oc \<noteq> None \<longrightarrow>
            (\<exists>n f d. es_query oc = Search n f d (Some ''metadata__updated_on'')))"
proof -
  have a: "next_n (length page) oc w = (map Yield (rev page), oc\<lparr>iter_items := []\<rparr>, w)"
    using assms(1) by (rule next_n_drain)
  have b: "sorted (map key page) \<longrightarrow> sorted_wrt (\<lambda>a b. key b \<le> key a) (rev page)"
    by (simp add: sorted_map sorted_wrt_rev)
  have c: "\<not> truthy_str (elastic_scroll_id oc) \<longrightarrow> perceval_backend oc \<noteq> None \<longrightarrow>
            (\<exists>n f d. es_query oc = Search n f d (Some ''metadata__updated_on''))"
    by (auto simp: es_query_def)
  from a b c show ?thesis by blast
qed

theorem next_pops_page_in_reverse_witness:
  "next_n 3 (example_ocean True False [1, 2, 3]) (example_store []) =
     ([Yield 3, Yield 2, Yield 1], example_ocean True False [], example_store [])
   \<and> sorted_wrt (\<lambda>a b. b \<le> a) (rev [1, 2, 3 :: nat])"
proof -
  have i: "iter_items (example_ocean True False [1, 2, 3]) = [1, 2, 3]"
    by (simp add: example_ocean_def)
  have n: "[1, 2, 3 :: nat] \<noteq> []" by simp
  have l: "length [1, 2, 3 :: nat] = 3" by simp
  have e: "(example_ocean True False [1, 2, 3])\<lparr>iter_items := []\<rparr> = example_ocean True False []"
    by (simp add: example_ocean_def)
  note t = next_pops_page_in_reverse [OF i n, where key = "\<lambda>x. x" and w = "example_store []"]
  from t have "next_n 3 (example_ocean True False [1, 2, 3]) (example_store []) =
      (map Yield (rev [1, 2, 3]), example_ocean True False [], example_store [])"
    unfolding l e by (rule conjunct1)
  moreover from t have "sorted_wrt (\<lambda>a b. b \<le> a) (rev [1, 2, 3 :: nat])"
    by simp
  ultimately show ?thesis by simp
qed

lemma get_elastic_items_bad_body:
  "(pending w = NotJson # rs \<longrightarrow>
      get_elastic_items oc w =
        (Inl UnboundLocalError, oc,
         w\<lparr>posted := posted w @ [es_query oc], pending := rs, warnings := warnings w + 2\<rparr>))
   \<and> (pending w = Unreachable # rs \<longrightarrow>
      get_elastic_items oc w =
        (Inl ConnectionError, oc, w\<lparr>posted := posted w @ [es_query oc], pending := rs\<rparr>))
   \<and> (pending w = Json \<lparr>rj_scroll_id = sid, rj_hits = None\<rparr> # rs \<longrightarrow>
      get_elastic_items oc w =
        (Inr [], oc\<lparr>elastic_scroll_id := sid\<rparr>,
         w\<lparr>posted := posted w @ [es_query oc], pending := rs, warnings := warnings w + 1\<rparr>))"
  by (simp add: get_elastic_items_def Let_def)

text \<open>
  Claim C6 says that a page request whose response cannot be had or is not JSON logs a
  warning and returns the empty list. The code does so only for a decoded body without
  \<open>hits\<close>. For a body that is not JSON it logs its two warnings and then raises
  \<open>UnboundLocalError\<close>, and a failing \<open>post\<close> raises as well.
\<close>

theorem get_elastic_items_not_json_raises:
  "get_elastic_items (example_ocean True False []) (example_store [NotJson]) =
     (Inl UnboundLocalError, example_ocean True False [],
      \<lparr>pending = [],
       posted = [Search 10 (Some ''http://example.com'') None (Some ''metadata__updated_on'')],
       warnings = 2\<rparr>)"
  by (simp add: get_elastic_items_def es_query_def Let_def ex_defs)

lemma flush_chunks:
  assumes "0 < k" "length pack \<le> k"
  shows "bulk_calls (items_to_es pack es) =
           bulk_calls es @ map (\<lambda>b. (b, get_field_unique_id)) (chunks k pack)"
proof (cases "pack = []")
  case True
  then show ?thesis by (simp add: items_to_es_def)
next
  case False
  with assms have "chunks k pack = [pack]" by (simp add: chunks_small)
  with False show ?thesis by (simp add: items_to_es_def)
qed

lemma feed_loop_batches:
  assumes "k = nat (max 1 (max_items_bulk es))" "length pack \<le> k"
    and "feed_loop isoformat drop_item proj its (pack, es, n) = (None, pack', es', n')"
  shows "\<exists>ts. traverse (tag_item isoformat proj) its = Inr ts
         \<and> bulk_calls (items_to_es pack' es') =
             bulk_calls es @ map (\<lambda>b. (b, get_field_unique_id))
               (chunks k (pack @ filter (\<lambda>t. \<not> drop_item t) ts))
         \<and> max_items_bulk es' = max_items_bulk es
         \<and> es_docs es' = es_docs es
         \<and> n' + length (filter (\<lambda>t. \<not> drop_item t) ts) = n + length its"
  using assms
proof (induction its arbitrary: pack es n)
  case Nil
  then have "0 < k" by simp
  with Nil show ?case by (simp add: flush_chunks)
next
  case (Cons it its)
  have kpos: "0 < k" using Cons.prems(1) by simp
  from Cons.prems(3) obtain t where t: "tag_item isoformat proj it = Inr t"
    by (cases "tag_item isoformat proj it") (auto simp: feed_step_def)
  show ?case
  proof (cases "int (length pack) \<ge> max_items_bulk es")
    case flush: True
    define es1 where "es1 = items_to_es pack es"
    have m1: "max_items_bulk es1 = max_items_bulk es" "es_docs es1 = es_docs es"
      by (simp_all add: es1_def items_to_es_def)
    have k1: "k = nat (max 1 (max_items_bulk es1))" using Cons.prems(1) m1 by simp
    have b1: "bulk_calls es1 = bulk_calls es @ map (\<lambda>b. (b, get_field_unique_id)) (chunks k pack)"
      unfolding es1_def using kpos Cons.prems(2) by (rule flush_chunks)
    have split: "\<And>xs. chunks k (pack @ xs) = chunks k pack @ chunks k xs"
    proof -
      fix xs :: "item list"
      show "chunks k (pack @ xs) = chunks k pack @ chunks k xs"
      proof (cases "pack = []")
        case True
        then show ?thesis by simp
      next
        case False
        have "length pack = k"
        proof (cases "1 \<le> max_items_bulk es")
          case True
          with flush Cons.prems(1,2) show ?thesis by simp
        next
          case False
          with Cons.prems(1) have "k = 1" by simp
          with \<open>pack \<noteq> []\<close> Cons.prems(2) show ?thesis
            by (cases pack) auto
        qed
        with kpos False show ?thesis
          by (simp add: chunks_append_full chunks_small)
      qed
    qed
    show ?thesis
    proof (cases "drop_item t")
      case True
      with flush Cons.prems(3) t
      have "feed_loop isoformat drop_item proj its ([], es1, n + 1) = (None, pack', es', n')"
        by (simp add: feed_step_def es1_def)
      from Cons.IH [OF k1 _ this] obtain ts where
        "traverse (tag_item isoformat proj) its = Inr ts"
        "bulk_calls (items_to_es pack' es') =
           bulk_calls es1 @ map (\<lambda>b. (b, get_field_unique_id))
             (chunks k ([] @ filter (\<lambda>t. \<not> drop_item t) ts))"
        "max_items_bulk es' = max_items_bulk es1" "es_docs es' = es_docs es1"
        "n' + length (filter (\<lambda>t. \<not> drop_item t) ts) = n + 1 + length its"
        by auto
      with True b1 m1 t split [of "filter (\<lambda>t. \<not> drop_item t) ts"] show ?thesis
        by simp
    next
      case False
      with flush Cons.prems(3) t
      have "feed_loop isoformat drop_item proj its ([t], es1, n) = (None, pack', es', n')"
        by (simp add: feed_step_def es1_def)
      from Cons.IH [OF k1 _ this] kpos obtain ts where
        "traverse (tag_item isoformat proj) its = Inr ts"
        "bulk_calls (items_to_es pack' es') =
           bulk_calls es1 @ map (\<lambda>b. (b, get_field_unique_id))
             (chunks k ([t] @ filter (\<lambda>t. \<not> drop_item t) ts))"
        "max_items_bulk es' = max_items_bulk es1" "es_docs es' = es_docs es1"
        "n' + length (filter (\<lambda>t. \<not> drop_item t) ts) = n + length its"
        by auto
      with False b1 m1 t split [of "t # filter (\<lambda>t. \<not> drop_item t) ts"] show ?thesis
        by simp
    qed
  next
    case noflush: False
    then have lt: "length pack < k" using Cons.prems(1) by simp
    show ?thesis
    proof (cases "drop_item t")
      case True
      with noflush Cons.prems(3) t
      have "feed_loop isoformat drop_item proj its (pack, es, n + 1) = (None, pack', es', n')"
        by (simp add: feed_step_def)
      from Cons.IH [OF Cons.prems(1) Cons.prems(2) this] True t show ?thesis
        by auto
    next
      case False
      with noflush Cons.prems(3) t
      have "feed_loop isoformat drop_item proj its (pack @ [t], es, n) = (None, pack', es', n')"
        by (simp add: feed_step_def)
      from Cons.IH [OF Cons.prems(1) _ this] lt obtain ts where
        "traverse (tag_item isoformat proj) its = Inr ts"
        "bulk_calls (items_to_es pack' es') =
           bulk_calls es @ map (\<lambda>b. (b, get_field_unique_id))
             (chunks k ((pack @ [t]) @ filter (\<lambda>t. \<not> drop_item t) ts))"
        "max_items_bulk es' = max_items_bulk es" "es_docs es' = es_docs es"
        "n' + length (filter (\<lambda>t. \<not> drop_item t) ts) = n + length its"
        by auto
      with False t show ?thesis
        by simp
    qed
  qed
qed

text \<open>
  Claim C5. In one pass of \<open>feed\<close> that no exception aborts, neither one of the
  connector nor one raised while an item is tagged, the calls of \<open>bulk_upload_sync\<close>
  are the surviving items split into consecutive batches of the bulk size: every batch
  but the last has exactly \<open>max_items_bulk\<close> items (one item when the bulk size is below
  one), the last is the remainder, no batch is empty, the batches put together are the
  surviving items in order, each once, the dropped items are counted, and
  \<open>_items_to_es\<close> of an empty list calls nothing.
\<close>

theorem feed_flushes_batches:
  assumes "perceval_backend oc = Some be"
    and "feed isoformat drop_item oc es from_date_arg offset = (None, oc', es', Some c, ndrop)"
    and "S = survivors isoformat drop_item (project oc) (fst (be_run be c))"
    and "k = nat (max 1 (max_items_bulk es))"
  shows "(\<exists>ts. traverse (tag_item isoformat (project oc)) (fst (be_run be c)) = Inr ts
              \<and> S = filter (\<lambda>t. \<not> drop_item t) ts)
       \<and> bulk_calls es' = bulk_calls es @ map (\<lambda>b. (b, get_field_unique_id)) (chunks k S)
       \<and> concat (chunks k S) = S
       \<and> (\<forall>b\<in>set (chunks k S). b \<noteq> [] \<and> length b \<le> k)
       \<and> (\<forall>b\<in>set (butlast (chunks k S)). length b = k)
       \<and> ndrop + length S = length (fst (be_run be c))
       \<and> items_to_es [] es = es"
proof -
  have kpos: "0 < k" using assms(4) by simp
  obtain its err where run: "be_run be c = (its, err)"
    by (cases "be_run be c") auto
  obtain r pack es1 n1 where
    loop: "feed_loop isoformat drop_item (project oc) its ([], es, 0) = (r, pack, es1, n1)"
    by (cases "feed_loop isoformat drop_item (project oc) its ([], es, 0)") auto
  from assms(1,2) have c: "c = feed_call (fetch_cache oc) (be_from_date_param be)
      (get_last_update_from_es es (''origin'', be_origin be)) from_date_arg offset"
    by (auto simp: feed_def Let_def split: prod.splits option.splits)
  from assms(1,2) run loop c
  have res: "r = None" "err = None" "es' = items_to_es pack es1" "ndrop = n1"
    by (auto simp: feed_def Let_def split: prod.splits option.splits)
  from feed_loop_batches [OF assms(4) _ loop [unfolded res(1)]] obtain ts where
    ts: "traverse (tag_item isoformat (project oc)) its = Inr ts"
    and bc: "bulk_calls (items_to_es pack es1) =
             bulk_calls es @ map (\<lambda>b. (b, get_field_unique_id))
               (chunks k ([] @ filter (\<lambda>t. \<not> drop_item t) ts))"
    and nn: "n1 + length (filter (\<lambda>t. \<not> drop_item t) ts) = 0 + length its"
    by auto
  have S: "S = filter (\<lambda>t. \<not> drop_item t) ts"
    using assms(3) run ts by (simp add: survivors_def)
  have z: "\<exists>ts. traverse (tag_item isoformat (project oc)) (fst (be_run be c)) = Inr ts
              \<and> S = filter (\<lambda>t. \<not> drop_item t) ts"
    using ts S run by simp
  have a: "bulk_calls es' = bulk_calls es @ map (\<lambda>b. (b, get_field_unique_id)) (chunks k S)"
    using bc res S by simp
  have e: "ndrop + length S = length (fst (be_run be c))"
    using nn res S run by simp
  have b: "concat (chunks k S) = S" using kpos by (rule concat_chunks)
  have c': "\<forall>b\<in>set (chunks k S). b \<noteq> [] \<and> length b \<le> k"
    using chunks_member by blast
  have d: "\<forall>b\<in>set (butlast (chunks k S)). length b = k"
    using chunks_butlast_full by blast
  have f: "items_to_es [] es = es" by (simp add: items_to_es_def)
  from z a b c' d e f show ?thesis by blast
qed


theorem feed_flushes_batches_witness:
  "bulk_calls (fst (snd (snd
      (feed (\<lambda>v. Inr ''t'') (\<lambda>it. False) (example_ocean True False []) example_elastic None None)))) =
     [([example_tagged 1, example_tagged 2], ''ocean-unique-id''),
      ([example_tagged 3], ''ocean-unique-id'')]"
proof -
  let ?r = "feed (\<lambda>v. Inr ''t'') (\<lambda>it. False) (example_ocean True False []) example_elastic None None"
  let ?c = "FetchFromDate \<lparr>secs = 7, tzinfo = None\<rparr>"
  have r: "?r = (None, fst (snd ?r), fst (snd (snd ?r)), Some ?c, snd (snd (snd (snd ?r))))"
    by (simp add: feed_def Let_def ex_defs)
  have b: "perceval_backend (example_ocean True False []) = Some (example_backend True)"
    by (simp add: example_ocean_def)
  have S: "survivors (\<lambda>v. Inr ''t'') (\<lambda>it. False) (project (example_ocean True False []))
             (fst (be_run (example_backend True) ?c)) =
           [example_tagged 1, example_tagged 2, example_tagged 3]"
    by (simp add: ex_defs)
  have k: "nat (max 1 (max_items_bulk example_elastic)) = 2"
    by (simp add: example_elastic_def)
  have ch: "chunks 2 [example_tagged 1, example_tagged 2, example_tagged 3] =
      [[example_tagged 1, example_tagged 2], [example_tagged 3]]"
    by (simp add: chunks.simps)
  from feed_flushes_batches [OF b r refl refl]
  have "bulk_calls (fst (snd (snd ?r))) =
      bulk_calls example_elastic @ map (\<lambda>b. (b, get_field_unique_id))
        (chunks 2 [example_tagged 1, example_tagged 2, example_tagged 3])"
    unfolding S k by (rule conjunct1 [OF conjunct2])
  then show ?thesis
    unfolding ch by (simp add: example_elastic_def get_field_unique_id_def)
qed

lemma get_last_date_max:
  "get_last_date es field flt =
     (if origin_dates es field flt = [] then None
      else Some \<lparr>secs = Max (set (origin_dates es field flt)), tzinfo = Some 0\<rparr>)"
proof (cases "origin_dates es field flt")
  case Nil
  then show ?thesis by (simp add: get_last_date_def)
next
  case (Cons v vs)
  have "fold max vs v = Max (set (v # vs))"
    by (rule Max.set_eq_fold [symmetric])
  with Cons show ?thesis by (simp add: get_last_date_def)
qed

text \<open>
  Claim C3, as the code has it. The boundary kept in \<open>last_update\<close> is the maximum
  stored \<open>metadata__updated_on\<close> among the documents of the connector's origin, and
  nothing when there is none. A pass that replays the cache calls \<open>fetch_from_cache\<close>
  whatever the boundary; otherwise a non-zero offset gives \<open>fetch(offset=offset)\<close>;
  otherwise an override \<open>from_date\<close> takes precedence over the boundary, a \<open>fetch\<close>
  without the parameter \<open>from_date\<close> is called with no argument, and so is any
  \<open>fetch\<close> when there is neither override nor boundary.
\<close>

theorem feed_boundary_and_call:
  assumes "perceval_backend oc = Some be"
    and "feed isoformat drop_item oc es from_date_arg offset = (err, oc', es', c, ndrop)"
    and "ds = origin_dates es ''metadata__updated_on'' (''origin'', be_origin be)"
    and "boundary = (if ds = [] then None else Some \<lparr>secs = Max (set ds), tzinfo = Some 0\<rparr>)"
  shows "last_update oc' = boundary
       \<and> (fetch_cache oc \<longrightarrow> c = Some FetchFromCache)
       \<and> (\<not> fetch_cache oc \<and> truthy_int offset \<longrightarrow> c = Some (FetchOffset (the offset)))
       \<and> (\<not> fetch_cache oc \<and> \<not> truthy_int offset \<and> be_from_date_param be \<longrightarrow>
            c = Some (case from_date_arg of
                        Some d \<Rightarrow> FetchFromDate (replace_tzinfo_None d)
                      | None \<Rightarrow> (case boundary of
                                   Some t \<Rightarrow> FetchFromDate (replace_tzinfo_None t)
                                 | None \<Rightarrow> FetchAll)))
       \<and> (\<not> fetch_cache oc \<and> \<not> truthy_int offset \<and> \<not> be_from_date_param be \<longrightarrow>
            c = Some FetchAll)"
proof -
  have b: "get_last_update_from_es es (''origin'', be_origin be) = boundary"
    using assms(3,4)
    by (simp add: get_last_update_from_es_def get_field_date_def get_last_date_max)
  from assms(1,2) have c: "c = Some (feed_call (fetch_cache oc) (be_from_date_param be)
      boundary from_date_arg offset)" and l: "last_update oc' = boundary"
    by (auto simp: feed_def Let_def b split: prod.splits option.splits)
  show ?thesis
    unfolding c l
    by (auto simp: feed_call_def Let_def split: option.splits)
qed

theorem feed_boundary_and_call_witness:
  "last_update (fst (snd
      (feed (\<lambda>v. Inr ''t'') (\<lambda>it. False) (example_ocean True False []) example_elastic None None))) =
     Some \<lparr>secs = 7, tzinfo = Some 0\<rparr>
   \<and> fst (snd (snd (snd
      (feed (\<lambda>v. Inr ''t'') (\<lambda>it. False) (example_ocean True False []) example_elastic None None)))) =
     Some (FetchFromDate \<lparr>secs = 7, tzinfo = None\<rparr>)"
proof -
  let ?r = "feed (\<lambda>v. Inr ''t'') (\<lambda>it. False) (example_ocean True False []) example_elastic None None"
  have r: "?r = (fst ?r, fst (snd ?r), fst (snd (snd ?r)), fst (snd (snd (snd ?r))),
                 snd (snd (snd (snd ?r))))"
    by simp
  have b: "perceval_backend (example_ocean True False []) = Some (example_backend True)"
    by (simp add: example_ocean_def)
  have ds: "origin_dates example_elastic ''metadata__updated_on''
              (''origin'', be_origin (example_backend True)) = [7, 5]"
    by (simp add: ex_defs)
  from feed_boundary_and_call [OF b r refl refl]
  show ?thesis
    unfolding ds by (simp add: example_ocean_def example_backend_def replace_tzinfo_None_def)
qed

theorem feed_no_from_date_counterexample:
  "be_from_date_param (example_backend False) = False
   \<and> fst (snd (snd (snd
      (feed (\<lambda>v. Inr ''t'') (\<lambda>it. False) (example_ocean False True []) example_elastic None None)))) =
     Some FetchFromCache
   \<and> fst (snd (snd (snd
      (feed (\<lambda>v. Inr ''t'') (\<lambda>it. False) (example_ocean False True []) example_elastic None None)))) \<noteq>
     Some FetchAll"
  by (simp add: feed_def Let_def ex_defs)

section \<open>Properties of the Bugzilla connector\<close>

lemma loop_within_page:
  "bs \<noteq> [] \<Longrightarrow> \<forall>b\<in>set bs. map_of b ''changeddate'' \<noteq> None \<Longrightarrow>
     fetch_buglist_loop env bs w =
       (case fetch_buglist_loop env [last bs] w of (ys, r) \<Rightarrow> (butlast bs @ ys, r))"
proof (induction bs)
  case Nil
  then show ?case by simp
next
  case (Cons b bs)
  show ?case
  proof (cases "bs = []")
    case True
    then show ?thesis by (simp split: prod.splits)
  next
    case False
    from Cons.prems obtain ld where ld: "map_of b ''changeddate'' = Some ld" by auto
    have "fetch_buglist_loop env (b # bs) w =
        (case fetch_buglist_loop env bs w of (ys, r) \<Rightarrow> (b # ys, r))"
      using False ld by (simp add: fetch_buglist_loop.simps)
    with Cons.IH [OF False] Cons.prems False show ?thesis
      by (simp split: prod.splits)
  qed
qed

lemma loop_last_of_page:
  assumes "map_of b ''changeddate'' = Some ld" "next_from_date env ld = Inr fd"
  shows "fetch_buglist_loop env [b] w =
           (case fetch_buglist env fd w of (ys, r) \<Rightarrow> (b # ys, r))"
  using assms
  by (simp add: fetch_buglist_loop.simps fetch_buglist_def split: prod.splits sum.splits)

text \<open>
  Claim C7. For every lower bound and every sequence of bug list pages the server
  returns, non-empty pages followed by an empty one, whose rows carry a
  \<open>changeddate\<close> and whose last dates can be read and advanced: the enumeration
  yields the bugs of each page in order, asks for the first page with the given lower
  bound and after each non-empty page for the next one with the \<open>changeddate\<close> of that
  page's last bug plus one second, and ends, with no exception, when the empty page
  arrives, leaving the rest of the server's responses untouched.
\<close>

theorem fetch_buglist_pages:
  assumes "\<forall>r\<in>set raws. p_buglist env r \<noteq> None \<and> buglist_rows env r \<noteq> [] \<and>
             (\<forall>b\<in>set (buglist_rows env r). map_of b ''changeddate'' \<noteq> None)"
    and "\<forall>r\<in>set raws. \<exists>d.
             p_str_to_datetime env (the (map_of (last (buglist_rows env r)) ''changeddate'')) = Some d
             \<and> secs d < datetime_max_secs"
    and "p_buglist env raw_end = Some []"
    and "w_pending w = map Inr raws @ Inr raw_end # rest"
  shows "fetch_buglist env fd w =
           (concat (map (buglist_rows env) raws), None,
            w\<lparr>w_pending := rest,
              w_trace := w_trace w @ map Call
                (ReqBuglist fd #
                 map (\<lambda>r. ReqBuglist (last_date_plus_one env (buglist_rows env r))) raws)\<rparr>)"
  using assms(1,2,4)
proof (induction raws arbitrary: fd w)
  case Nil
  then show ?case
    using assms(3)
    by (simp add: fetch_buglist_def fetch_and_parse_buglist_page_def client_call_def Let_def
        fetch_buglist_loop.simps parse_buglist_def)
next
  case (Cons r rs)
  let ?page = "buglist_rows env r"
  let ?w1 = "w\<lparr>w_trace := w_trace w @ [Call (ReqBuglist fd)],
               w_pending := map Inr rs @ Inr raw_end # rest\<rparr>"
  let ?fd = "last_date_plus_one env ?page"
  have ne: "?page \<noteq> []" and cd: "\<forall>b\<in>set ?page. map_of b ''changeddate'' \<noteq> None"
    using Cons.prems(1) by auto
  from Cons.prems(2) obtain d where
    d: "p_str_to_datetime env (the (map_of (last ?page) ''changeddate'')) = Some d"
       "secs d < datetime_max_secs"
    by auto
  from cd ne obtain ld where ld: "map_of (last ?page) ''changeddate'' = Some ld"
    by (metis last_in_set not_Some_eq)
  have nf: "next_from_date env ld = Inr ?fd"
    using d ld
    by (simp add: next_from_date_def str_to_datetime_def add_one_second_def
        last_date_plus_one_def)
  have pr: "parse_buglist env r = Inr ?page"
    using Cons.prems(1) by (auto simp: parse_buglist_def buglist_rows_def)
  have pg: "fetch_and_parse_buglist_page env fd w = (Inr ?page, ?w1)"
    using Cons.prems(3) pr
    by (simp add: fetch_and_parse_buglist_page_def client_call_def Let_def)
  have ih: "fetch_buglist env ?fd ?w1 =
      (concat (map (buglist_rows env) rs), None,
       ?w1\<lparr>w_pending := rest,
           w_trace := w_trace ?w1 @ map Call
             (ReqBuglist ?fd #
              map (\<lambda>r. ReqBuglist (last_date_plus_one env (buglist_rows env r))) rs)\<rparr>)"
    using Cons.prems by (intro Cons.IH) simp_all
  have "fetch_buglist env fd w = fetch_buglist_loop env ?page ?w1"
    by (simp add: fetch_buglist_def pg)
  also have "\<dots> = (case fetch_buglist_loop env [last ?page] ?w1 of
                      (ys, r) \<Rightarrow> (butlast ?page @ ys, r))"
    using ne cd by (rule loop_within_page)
  also have "fetch_buglist_loop env [last ?page] ?w1 =
      (case fetch_buglist env ?fd ?w1 of (ys, r) \<Rightarrow> (last ?page # ys, r))"
    using ld nf by (rule loop_last_of_page)
  finally show ?case
    unfolding ih using ne by simp
qed


theorem fetch_buglist_pages_witness:
  "fetch_buglist example_env \<lparr>secs = 5, tzinfo = None\<rparr>
       (example_world [Inr ''ab'', Inr ''c'', Inr [], Inr ''d'']) =
     ([example_row CHR ''a'', example_row CHR ''b'', example_row CHR ''c''], None,
      \<lparr>w_pending = [Inr ''d''],
       w_trace = [Call (ReqBuglist \<lparr>secs = 5, tzinfo = None\<rparr>),
                  Call (ReqBuglist \<lparr>secs = 99, tzinfo = None\<rparr>),
                  Call (ReqBuglist \<lparr>secs = 100, tzinfo = None\<rparr>)]\<rparr>)"
proof -
  have p: "w_pending (example_world [Inr ''ab'', Inr ''c'', Inr [], Inr ''d'']) =
      map Inr [''ab'', ''c''] @ Inr [] # [Inr ''d'']"
    by (simp add: example_world_def)
  have e: "p_buglist example_env [] = Some []"
    by (simp add: example_env_def)
  have r: "\<forall>r\<in>set [''ab'', ''c'']. p_buglist example_env r \<noteq> None \<and>
             buglist_rows example_env r \<noteq> [] \<and>
             (\<forall>b\<in>set (buglist_rows example_env r). map_of b ''changeddate'' \<noteq> None)"
    by (simp add: buglist_rows_def example_env_def example_row_def)
  have d: "\<forall>r\<in>set [''ab'', ''c'']. \<exists>d.
             p_str_to_datetime example_env
               (the (map_of (last (buglist_rows example_env r)) ''changeddate'')) = Some d
             \<and> secs d < datetime_max_secs"
    by (simp add: buglist_rows_def example_env_def example_row_def datetime_max_secs_def)
  from fetch_buglist_pages [OF r d e p, of "\<lparr>secs = 5, tzinfo = None\<rparr>"]
  show ?thesis
    by (simp add: buglist_rows_def example_env_def example_row_def last_date_plus_one_def
        example_world_def)
qed



















lemma metadata_not_cache_error: "metadata env orig b \<noteq> Inl CacheError"
proof -
  have u: "uuid h args \<noteq> Inl CacheError" for h args
  proof (cases "list_all nonempty_str args")
    case True
    then show ?thesis
      by (simp add: uuid_def traverse_check_ok encode_utf8_eq)
  next
    case False
    then show ?thesis
      by (simp add: uuid_def traverse_check_bad)
  qed
  show ?thesis
    using u [of "p_sha1_hex env"]
    by (auto simp: metadata_def get_update_time_def split: sum.splits option.splits)
qed

lemma replay_bugs_cases:
  "replay_bugs env orig bugs items = (its, r, rest) \<Longrightarrow>
     (r = None \<longleftrightarrow>
        length bugs \<le> length items \<and> assemble env orig bugs (take (length bugs) items) \<noteq> None)
     \<and> (r = None \<longrightarrow> rest = drop (length bugs) items)
     \<and> (r = Some CacheError \<longleftrightarrow>
        length items < length bugs \<and> assemble env orig (take (length items) bugs) items \<noteq> None)"
proof (induction bugs arbitrary: items its)
  case Nil
  then show ?case by auto
next
  case (Cons b bs)
  show ?case
  proof (cases items)
    case Nil
    with Cons.prems show ?thesis by auto
  next
    case (Cons a items')
    note items = Cons
    show ?thesis
    proof (cases "p_bug_activity env a")
      case None
      with items Cons.prems show ?thesis
        by (auto simp: parse_bug_activity_def)
    next
      case (Some evs)
      show ?thesis
      proof (cases "metadata env orig (b\<lparr>activity := Some evs\<rparr>)")
        case (Inl e)
        with metadata_not_cache_error [of env orig "b\<lparr>activity := Some evs\<rparr>"]
        have "e \<noteq> CacheError" by auto
        with Inl Some items Cons.prems show ?thesis
          by (auto simp: parse_bug_activity_def)
      next
        case (Inr it)
        obtain its' where
          rec: "replay_bugs env orig bs items' = (its', r, rest)"
          using Cons.prems items Some Inr
          by (auto simp: parse_bug_activity_def split: prod.splits)
        from Cons.IH [OF rec] items Some Inr show ?thesis
          by simp
      qed
    qed
  qed
qed

lemma replay_loop_starved:
  "snd (replay_loop env orig blocks) = Some CacheError \<longleftrightarrow> starved env orig blocks"
proof (induction env orig blocks rule: replay_loop.induct)
  case (1 env orig)
  then show ?case by (simp add: replay_loop.simps starved.simps)
next
  case (2 env orig raw_bugs cache_items)
  show ?case
  proof (cases "p_bugs_details env raw_bugs")
    case None
    then show ?thesis
      by (simp add: replay_loop.simps starved.simps parse_bugs_details_def)
  next
    case (Some bugs)
    then have pd: "parse_bugs_details env raw_bugs = Inr bugs"
      by (simp add: parse_bugs_details_def)
    obtain its r rest where rb: "replay_bugs env orig bugs cache_items = (its, r, rest)"
      by (cases "replay_bugs env orig bugs cache_items") auto
    note c = replay_bugs_cases [OF rb]
    show ?thesis
    proof (cases r)
      case None
      with c have ok: "length bugs \<le> length cache_items"
        "assemble env orig bugs (take (length bugs) cache_items) \<noteq> None"
        "rest = drop (length bugs) cache_items"
        by simp_all
      from "2.IH" [OF pd, of its "(r, rest)" r rest] rb None
      have ih: "snd (replay_loop env orig rest) = Some CacheError \<longleftrightarrow> starved env orig rest"
        by simp
      have "snd (replay_loop env orig (raw_bugs # cache_items)) = snd (replay_loop env orig rest)"
        using pd rb None by (simp add: replay_loop.simps split: prod.splits)
      moreover have "starved env orig (raw_bugs # cache_items) = starved env orig rest"
        using Some ok by (auto simp: starved.simps)
      ultimately show ?thesis using ih by simp
    next
      case (Some e)
      have "snd (replay_loop env orig (raw_bugs # cache_items)) = Some e"
        using pd rb Some by (simp add: replay_loop.simps)
      moreover have "starved env orig (raw_bugs # cache_items) \<longleftrightarrow> e = CacheError"
        using \<open>p_bugs_details env raw_bugs = Some bugs\<close> c Some
        by (auto simp: starved.simps)
      ultimately show ?thesis by auto
    qed
  qed
qed

text \<open>
  Claim C4, with the cache's own failure added. \<open>fetch_from_cache\<close> ends with a cache
  error in exactly these situations: the connector has no cache object; the cache's
  \<open>retrieve\<close> fails because its storage is inaccessible; or the cached sequence runs
  out in the middle of a unit, a details block having been parsed and the activity block
  of one of its bugs being missing. In every other case the replay ends without a
  cache error.
\<close>

theorem fetch_from_cache_cache_error:
  "fst (snd (fetch_from_cache env conn w)) = Some CacheError \<longleftrightarrow>
     (case cache conn of
        None \<Rightarrow> True
      | Some c \<Rightarrow> \<not> c_accessible c \<or> starved env (url conn) (c_blocks c))"
proof (cases "cache conn")
  case None
  then show ?thesis by (simp add: fetch_from_cache_def)
next
  case (Some c)
  show ?thesis
  proof (cases "c_accessible c")
    case False
    with Some show ?thesis by (simp add: fetch_from_cache_def cache_retrieve_def)
  next
    case True
    have "fst (snd (fetch_from_cache env conn w)) = snd (replay_loop env (url conn) (c_blocks c))"
      using Some True
      by (simp add: fetch_from_cache_def cache_retrieve_def split: prod.splits)
    with Some True replay_loop_starved [of env "url conn" "c_blocks c"] show ?thesis
      by simp
  qed
qed


theorem fetch_from_cache_cache_error_witness:
  "fst (snd (fetch_from_cache example_env (example_cached [''ab'', ''x''] True)
       (example_world []))) = Some CacheError
   \<and> fst (snd (fetch_from_cache example_env (example_cached [''ab'', ''x'', ''y''] True)
       (example_world []))) \<noteq> Some CacheError
   \<and> fst (snd (fetch_from_cache example_env (example_conn\<lparr>cache := None\<rparr>)
       (example_world []))) = Some CacheError"
proof -
  have s1: "starved example_env [104] [''ab'', ''x'']"
    by (simp add: starved.simps example_env_def example_bug_def metadata_def uuid_def
        encode_utf8_def encode_char_def encodable_def get_update_time_def)
  have s2: "\<not> starved example_env [104] [''ab'', ''x'', ''y'']"
    by (simp add: starved.simps example_env_def example_bug_def metadata_def uuid_def
        encode_utf8_def encode_char_def encodable_def get_update_time_def)
  have u: "url (example_cached bl ok) = [104]" "cache (example_cached bl ok) =
      Some \<lparr>c_blocks = bl, c_accessible = ok\<rparr>" for bl ok
    by (simp_all add: example_cached_def example_conn_def bugzilla_init_def)
  from fetch_from_cache_cache_error [of example_env "example_cached [''ab'', ''x''] True"
      "example_world []"]
    fetch_from_cache_cache_error [of example_env "example_cached [''ab'', ''x'', ''y''] True"
      "example_world []"]
    fetch_from_cache_cache_error [of example_env "example_conn\<lparr>cache := None\<rparr>"
      "example_world []"]
  show ?thesis
    by (simp add: u s1 s2)
qed

theorem fetch_from_cache_inaccessible_counterexample:
  "cache (example_cached [] False) \<noteq> None
   \<and> \<not> starved example_env (url (example_cached [] False)) []
   \<and> fst (snd (fetch_from_cache example_env (example_cached [] False) (example_world []))) =
       Some CacheError"
  by (simp add: example_cached_def fetch_from_cache_def cache_retrieve_def starved.simps)

end
